theory Spec2Isabelle
  imports Main
begin

section \<open>SimpleVector: a shallow embedding of simple\_vector.h\<close>

text \<open>
  The class template \<open>SimpleVector<Type>\<close> is embedded as a record of its three data members
  and one HOL function per member function. Every function takes the state of the object
  and returns the state after the call, next to what the call yields: a value, or the
  exception that leaves it. The members \<open>items_\<close>, \<open>size_\<close> and \<open>capacity_\<close> are the fields
  \<open>items_m\<close>, \<open>size_m\<close> and \<open>capacity_m\<close> (a name cannot end in an underscore here). Sizes
  and positions are natural numbers; the three places where the source computes with
  \<open>size_t\<close> (\<open>size_ + 1\<close>, \<open>2 * capacity_\<close>, \<open>size_ - 1\<close>) wrap around at \<open>2 ^ 64\<close>. An
  iterator is the index of the slot it points to, counted from \<open>begin()\<close>.

  A slot is read with \<open>!\<close> and written with a list update. Outside the buffer these are not
  what the program does (a list update there changes nothing, the program has undefined
  behaviour), so the theorems are about vectors that satisfy the class invariant, and the
  preconditions the source asserts are checked by the embedding.
\<close>

subsection \<open>Exceptions\<close>

datatype error =
    out_of_range string  \<comment> \<open>\<open>std::out_of_range\<close> with its message\<close>
  | bad_alloc            \<comment> \<open>\<open>new Type[n]\<close> could not obtain the block\<close>
  | copy_exception       \<comment> \<open>the copy assignment of an element threw\<close>
  | assertion_failed     \<comment> \<open>an \<open>assert\<close> of the source does not hold\<close>
  | dangling_reference   \<comment> \<open>undefined behaviour: a read through a reference into a released block\<close>

subsection \<open>The element type and the heap\<close>

text \<open>
  What the template parameter \<open>Type\<close> and the free store contribute to the behaviour of the
  container: the value of \<open>Type()\<close>, the state a moved-from element is left in, which values
  cannot be copied without an exception, what a freshly allocated slot holds (a default
  constructed object, or whatever was in memory for a scalar type), and how large a block
  the free store is able to hand out.
\<close>

record 'a env =
  Type_default :: 'a
  moved_from :: "'a \<Rightarrow> 'a"
  copy_throws :: "'a \<Rightarrow> bool"
  uninit :: "nat \<Rightarrow> 'a"
  heap_limit :: nat

definition SIZE_MAX :: nat where
  "SIZE_MAX = 2 ^ 64 - 1"

definition PTRDIFF_MAX :: nat where
  "PTRDIFF_MAX = 2 ^ 63 - 1"

text \<open>Unsigned arithmetic of \<open>size_t\<close>: the result modulo \<open>2 ^ 64\<close>.\<close>

definition size_t :: "nat \<Rightarrow> nat" where
  "size_t n = n mod (SIZE_MAX + 1)"

definition size_t_minus :: "nat \<Rightarrow> nat \<Rightarrow> nat" where
  "size_t_minus a b = size_t (a + (SIZE_MAX + 1) - b mod (SIZE_MAX + 1))"

subsection \<open>ArrayPtr\<close>

text \<open>
  Modelled from the spec: \<open>array_ptr.h\<close>, the owning buffer, is not among the sources. The
  spec (section 6) gives its contract. An owner holds a block of contiguous slots and
  nobody else holds it: the owner is the list of its slots, the empty owner the empty list.
\<close>

type_synonym 'a ArrayPtr = "'a list"

text \<open>
  The free store hands out a block of \<open>n\<close> elements if it has the memory, and never a block
  of more than \<open>PTRDIFF_MAX\<close> bytes; an element takes at least one byte.
\<close>

definition can_allocate :: "'a env \<Rightarrow> nat \<Rightarrow> bool" where
  "can_allocate env n = (n \<le> heap_limit env \<and> n \<le> PTRDIFF_MAX)"

text \<open>
  Modelled from the spec: the constructor \<open>ArrayPtr(size_t)\<close> of \<open>array_ptr.h\<close>. In the
  spec's words, \<open>Allocate(n)\<close> returns an owner of \<open>n\<close> contiguous
  default-constructed-or-uninitialized slots, \<open>n = 0\<close> yields an empty owner, and the call
  fails with an allocation error if memory cannot be obtained.
\<close>

definition ArrayPtr_new :: "'a env \<Rightarrow> nat \<Rightarrow> error + 'a ArrayPtr" where
  "ArrayPtr_new env n =
     (if n = 0 then Inr []
      else if can_allocate env n then Inr (map (uninit env) [0..<n])
      else Inl bad_alloc)"

text \<open>
  Modelled from the spec: \<open>ArrayPtr::swap\<close> of \<open>array_ptr.h\<close>. \<open>Swap(other)\<close> exchanges the
  owned blocks of two owners. The result is the two owners after the call, the one the
  call is made on first.
\<close>

definition ArrayPtr_swap :: "'a ArrayPtr \<Rightarrow> 'a ArrayPtr \<Rightarrow> 'a ArrayPtr \<times> 'a ArrayPtr" where
  "ArrayPtr_swap p other = (other, p)"

text \<open>
  Modelled from the spec: the move constructor and the move assignment of \<open>array_ptr.h\<close>. A
  transfer of ownership hands the block over, and the source becomes the empty owner. The
  result is the receiving owner and the source after the transfer.
\<close>

definition ArrayPtr_move :: "'a ArrayPtr \<Rightarrow> 'a ArrayPtr \<times> 'a ArrayPtr" where
  "ArrayPtr_move other = (other, [])"

subsection \<open>The data members\<close>

record 'a SimpleVector =
  items_m :: "'a ArrayPtr"
  size_m :: nat
  capacity_m :: nat

text \<open>The logical element sequence: the range from \<open>begin()\<close> to \<open>end()\<close>.\<close>

definition elems :: "'a SimpleVector \<Rightarrow> 'a list" where
  "elems v = take (size_m v) (items_m v)"

text \<open>
  The class invariant (spec, section 3): \<open>size <= capacity\<close>, and the buffer holds exactly
  \<open>capacity\<close> slots, which is a block the free store can have handed out.
\<close>

definition invariant :: "'a SimpleVector \<Rightarrow> bool" where
  "invariant v =
     (size_m v \<le> capacity_m v \<and> length (items_m v) = capacity_m v \<and> capacity_m v \<le> PTRDIFF_MAX)"

subsection \<open>The algorithms of the standard library, as the container calls them\<close>

text \<open>
  \<open>std::copy\<close> and \<open>std::move\<close> are one loop that assigns element by element, front to
  back; \<open>std::copy_backward\<close> and \<open>std::move_backward\<close> are one loop back to front. The flag
  \<open>is_move\<close> selects the move assignment, which cannot throw and leaves its source in the
  moved-from state; the copy assignment throws for the values \<open>copy_throws\<close> names, and the
  loop stops there with everything assigned so far in place.
\<close>

definition assign_throws :: "'a env \<Rightarrow> bool \<Rightarrow> 'a \<Rightarrow> bool" where
  "assign_throws env is_move x = (\<not> is_move \<and> copy_throws env x)"

definition left_behind :: "'a env \<Rightarrow> bool \<Rightarrow> 'a \<Rightarrow> 'a" where
  "left_behind env is_move x = (if is_move then moved_from env x else x)"

text \<open>
  Front to back into another buffer: \<open>xs\<close> is the source range, read from a buffer that is
  not the destination, and \<open>result\<close> the index in \<open>dst\<close> of the next slot to assign.
\<close>

fun copy_move_a :: "'a env \<Rightarrow> bool \<Rightarrow> 'a list \<Rightarrow> 'a list \<Rightarrow> nat \<Rightarrow> (error + unit) \<times> 'a list" where
  "copy_move_a env is_move [] dst result = (Inr (), dst)"
| "copy_move_a env is_move (x # xs) dst result =
     (if assign_throws env is_move x then (Inl copy_exception, dst)
      else copy_move_a env is_move xs (dst[result := x]) (Suc result))"

text \<open>
  \<open>std::move(first, last, result)\<close> inside one buffer, as \<open>Erase\<close> calls it: slot \<open>first\<close> is
  moved to slot \<open>result\<close> and left moved-from, then both advance. The library's loop runs
  while \<open>first != last\<close>; \<open>Erase\<close> passes \<open>first <= last\<close> once its assertion holds, and there
  the loop below is the same.
\<close>

function move_within :: "'a env \<Rightarrow> 'a list \<Rightarrow> nat \<Rightarrow> nat \<Rightarrow> nat \<Rightarrow> 'a list" where
  "move_within env buf first last' result =
     (if first < last'
      then move_within env (buf[result := buf ! first, first := moved_from env (buf ! first)])
             (Suc first) last' (Suc result)
      else buf)"
  by pat_completeness auto
termination
  by (relation "measure (\<lambda>(env, buf, first, last', result). last' - first)") auto

declare move_within.simps [simp del]

text \<open>
  \<open>std::copy_backward(first, last, d_last)\<close> and \<open>std::move_backward\<close> inside one buffer, as
  \<open>Insert\<close> calls them: \<open>last\<close> and \<open>d_last\<close> step back, then slot \<open>last\<close> is assigned to
  slot \<open>d_last\<close>. Again the library's condition is \<open>first != last\<close>, and \<open>Insert\<close> passes
  \<open>first <= last\<close> once its assertion holds.
\<close>

function copy_move_backward_a ::
  "'a env \<Rightarrow> bool \<Rightarrow> 'a list \<Rightarrow> nat \<Rightarrow> nat \<Rightarrow> nat \<Rightarrow> (error + unit) \<times> 'a list" where
  "copy_move_backward_a env is_move buf first last' d_last =
     (if first < last'
      then (if assign_throws env is_move (buf ! (last' - 1)) then (Inl copy_exception, buf)
            else copy_move_backward_a env is_move
                   (buf[d_last - 1 := buf ! (last' - 1),
                        last' - 1 := left_behind env is_move (buf ! (last' - 1))])
                   first (last' - 1) (d_last - 1))
      else (Inr (), buf))"
  by pat_completeness auto
termination
  by (relation "measure (\<lambda>(env, is_move, buf, first, last', d_last). last' - first)") auto

declare copy_move_backward_a.simps [simp del]

text \<open>
  The loop of \<open>Resize\<close> that assigns \<open>Type()\<close> to the slots from \<open>it\<close> up to \<open>last\<close>:
  \<open>for (it = ...; it != last; ++it) *it = std::move(Type())\<close>. Both branches of \<open>Resize\<close>
  that run it have \<open>size_ < new_size\<close>, so it starts below \<open>last\<close>.
\<close>

function fill_default :: "'a env \<Rightarrow> 'a list \<Rightarrow> nat \<Rightarrow> nat \<Rightarrow> 'a list" where
  "fill_default env buf it last' =
     (if it < last' then fill_default env (buf[it := Type_default env]) (Suc it) last' else buf)"
  by pat_completeness auto
termination
  by (relation "measure (\<lambda>(env, buf, it, last'). last' - it)") auto

declare fill_default.simps [simp del]

subsection \<open>Construction\<close>

text \<open>\<open>SimpleVector() noexcept = default\<close>: the member initializers, and an empty owner.\<close>

definition SimpleVector_default :: "'a SimpleVector" where
  "SimpleVector_default = \<lparr>items_m = [], size_m = 0, capacity_m = 0\<rparr>"

text \<open>
  \<open>SimpleVector(std::initializer_list<Type> init)\<close>. An exception leaves the constructor, and
  no object comes to exist.
\<close>

definition SimpleVector_init :: "'a env \<Rightarrow> 'a list \<Rightarrow> error + 'a SimpleVector" where
  "SimpleVector_init env init =
     (case ArrayPtr_new env (length init) of
        Inl e \<Rightarrow> Inl e
      | Inr buf \<Rightarrow>
          (case copy_move_a env False init buf 0 of
             (Inl e, buf') \<Rightarrow> Inl e
           | (Inr u, buf') \<Rightarrow>
               Inr \<lparr>items_m = buf', size_m = length init, capacity_m = length init\<rparr>))"

text \<open>
  \<open>SimpleVector(SimpleVector&& other)\<close>: the new object, and \<open>other\<close> as the constructor
  leaves it.
\<close>

definition SimpleVector_move :: "'a SimpleVector \<Rightarrow> 'a SimpleVector \<times> 'a SimpleVector" where
  "SimpleVector_move other =
     (let (mine, theirs) = ArrayPtr_move (items_m other)
      in (\<lparr>items_m = mine, size_m = size_m other, capacity_m = capacity_m other\<rparr>,
          other\<lparr>items_m := theirs, size_m := 0, capacity_m := 0\<rparr>))"

subsection \<open>Assignment\<close>

text \<open>
  Both assignment operators compare the addresses of their two operands, so they are
  embedded over a store of objects: \<open>this\<close> and \<open>rhs\<close> are addresses, and \<open>h\<close> maps an
  address to the state of the vector that lives there. Every vector owns its buffer alone,
  so the buffer is part of the state.
\<close>

type_synonym addr = nat
type_synonym 'a store = "addr \<Rightarrow> 'a SimpleVector"

definition copy_assign :: "'a env \<Rightarrow> 'a store \<Rightarrow> addr \<Rightarrow> addr \<Rightarrow> (error + unit) \<times> 'a store" where
  "copy_assign env h this rhs =
     (if this \<noteq> rhs then
        (case ArrayPtr_new env (capacity_m (h rhs)) of
           Inl e \<Rightarrow> (Inl e, h)
         | Inr other \<Rightarrow>
             (let (mine, other') = ArrayPtr_swap (items_m (h this)) other;
                  h1 = h(this := (h this)\<lparr>items_m := mine\<rparr>)
              in (case copy_move_a env False (elems (h1 rhs)) (items_m (h1 this)) 0 of
                    (Inl e, buf) \<Rightarrow> (Inl e, h1(this := (h1 this)\<lparr>items_m := buf\<rparr>))
                  | (Inr u, buf) \<Rightarrow>
                      (Inr (), h1(this := (h1 this)\<lparr>items_m := buf,
                                     size_m := size_m (h1 rhs),
                                     capacity_m := capacity_m (h1 rhs)\<rparr>)))))
      else (Inr (), h))"

definition move_assign :: "'a store \<Rightarrow> addr \<Rightarrow> addr \<Rightarrow> 'a store" where
  "move_assign h this rhs =
     (if this \<noteq> rhs then
        (let (mine, theirs) = ArrayPtr_move (items_m (h rhs));
             h1 = h(this := (h this)\<lparr>items_m := mine\<rparr>, rhs := (h rhs)\<lparr>items_m := theirs\<rparr>);
             h2 = h1(this := (h1 this)\<lparr>size_m := size_m (h1 rhs)\<rparr>, rhs := (h1 rhs)\<lparr>size_m := 0\<rparr>);
             h3 = h2(this := (h2 this)\<lparr>capacity_m := capacity_m (h2 rhs)\<rparr>,
                     rhs := (h2 rhs)\<lparr>capacity_m := 0\<rparr>)
         in h3)
      else h)"

subsection \<open>Queries and element access\<close>

definition GetSize :: "'a SimpleVector \<Rightarrow> nat" where
  "GetSize v = size_m v"

definition GetCapacity :: "'a SimpleVector \<Rightarrow> nat" where
  "GetCapacity v = capacity_m v"

definition IsEmpty :: "'a SimpleVector \<Rightarrow> bool" where
  "IsEmpty v = (size_m v = 0)"

text \<open>
  A reference to a slot is embedded as the content of the slot. \<open>operator[]\<close> asserts its
  precondition; \<open>At\<close> throws.
\<close>

definition subscript :: "'a SimpleVector \<Rightarrow> nat \<Rightarrow> (error + 'a) \<times> 'a SimpleVector" where
  "subscript v index =
     (if index < size_m v then (Inr (items_m v ! index), v) else (Inl assertion_failed, v))"

definition At :: "'a SimpleVector \<Rightarrow> nat \<Rightarrow> (error + 'a) \<times> 'a SimpleVector" where
  "At v index =
     (if index \<ge> size_m v then (Inl (out_of_range ''Index is out of range''), v)
      else (Inr (items_m v ! index), v))"

subsection \<open>Changing the size and the capacity\<close>

text \<open>
  In its third branch \<open>Resize\<close> moves the elements into the new buffer and swaps; the old
  buffer, with its moved-from elements, is released with the local \<open>new_items\<close> when the
  branch ends, so only the new buffer is kept. A move cannot throw, so the outcome of the
  loop is dropped.
\<close>

definition Resize :: "'a env \<Rightarrow> nat \<Rightarrow> 'a SimpleVector \<Rightarrow> (error + unit) \<times> 'a SimpleVector" where
  "Resize env new_size v =
     (if new_size \<le> size_m v then (Inr (), v\<lparr>size_m := new_size\<rparr>)
      else if new_size \<le> capacity_m v then
        (Inr (), v\<lparr>items_m := fill_default env (items_m v) (size_m v)
                                 (size_m v + (new_size - size_m v)),
                    size_m := new_size\<rparr>)
      else
        (let new_capacity = max new_size (size_t (2 * capacity_m v))
         in (case ArrayPtr_new env new_capacity of
               Inl e \<Rightarrow> (Inl e, v)
             | Inr new_items \<Rightarrow>
                 (let moved = snd (copy_move_a env True (elems v) new_items 0);
                      filled = fill_default env moved (size_m v) new_size;
                      (mine, new_items') = ArrayPtr_swap (items_m v) filled
                  in (Inr (), v\<lparr>items_m := mine, size_m := new_size,
                                  capacity_m := new_capacity\<rparr>)))))"

definition Reserve :: "'a env \<Rightarrow> nat \<Rightarrow> 'a SimpleVector \<Rightarrow> (error + unit) \<times> 'a SimpleVector" where
  "Reserve env new_capacity v =
     (if new_capacity > capacity_m v then
        (case ArrayPtr_new env new_capacity of
           Inl e \<Rightarrow> (Inl e, v)
         | Inr new_items \<Rightarrow>
             (case copy_move_a env False (elems v) new_items 0 of
                (Inl e, copied) \<Rightarrow> (Inl e, v)
              | (Inr u, copied) \<Rightarrow>
                  (let (mine, new_items') = ArrayPtr_swap (items_m v) copied
                   in (Inr (), v\<lparr>items_m := mine, capacity_m := new_capacity\<rparr>))))
      else (Inr (), v))"

subsection \<open>Adding and removing elements\<close>

text \<open>
  \<open>PushBack\<close> and \<open>Insert\<close> take their argument by reference (\<open>const Type&\<close> or \<open>Type&&\<close>)
  and read it only after \<open>Resize\<close>, \<open>Insert\<close> also after it has shifted the elements. A
  reference names either an object outside the buffer of the vector, given here by its
  value, or slot \<open>j\<close> of the buffer the vector owns when the call is made, as in
  \<open>v.PushBack(v[0])\<close>.
\<close>

datatype 'a reference = outside 'a | slot nat

text \<open>
  \<open>Resize\<close> releases the buffer the vector had exactly when it takes its third branch: the
  local \<open>new_items\<close> holds the old block after the swap and frees it when the branch ends.
\<close>

definition Resize_releases :: "nat \<Rightarrow> 'a SimpleVector \<Rightarrow> bool" where
  "Resize_releases new_size v = (\<not> new_size \<le> size_m v \<and> \<not> new_size \<le> capacity_m v)"

text \<open>
  Reading through a reference, with the buffer as it is at the time of the read. A reference
  to a slot of a released block dangles: the read is undefined behaviour, and there is no
  value.
\<close>

fun read_through :: "bool \<Rightarrow> 'a list \<Rightarrow> 'a reference \<Rightarrow> 'a option" where
  "read_through released buf (outside x) = Some x"
| "read_through released buf (slot j) =
     (if released \<or> \<not> j < length buf then None else Some (buf ! j))"

text \<open>
  A move assignment leaves its source moved-from. An object outside the vector is not part
  of the state; a slot of the buffer is. Where the source is the slot assigned to, the
  assignment is a self-move, taken here to leave that slot moved-from as well.
\<close>

fun moved_out :: "'a env \<Rightarrow> 'a reference \<Rightarrow> 'a \<Rightarrow> 'a list \<Rightarrow> 'a list" where
  "moved_out env (outside x) y buf = buf"
| "moved_out env (slot j) y buf = buf[j := moved_from env y]"

definition PushBack_copy ::
  "'a env \<Rightarrow> 'a reference \<Rightarrow> 'a SimpleVector \<Rightarrow> (error + unit) \<times> 'a SimpleVector" where
  "PushBack_copy env item v =
     (case Resize env (size_t (size_m v + 1)) v of
        (Inl e, v1) \<Rightarrow> (Inl e, v1)
      | (Inr u, v1) \<Rightarrow>
          (case read_through (Resize_releases (size_t (size_m v + 1)) v) (items_m v1) item of
             None \<Rightarrow> (Inl dangling_reference, v1)
           | Some x \<Rightarrow>
               if copy_throws env x then (Inl copy_exception, v1)
               else (Inr (), v1\<lparr>items_m := (items_m v1)[size_t_minus (size_m v1) 1 := x]\<rparr>)))"

definition PushBack_move ::
  "'a env \<Rightarrow> 'a reference \<Rightarrow> 'a SimpleVector \<Rightarrow> (error + unit) \<times> 'a SimpleVector" where
  "PushBack_move env item v =
     (case Resize env (size_t (size_m v + 1)) v of
        (Inl e, v1) \<Rightarrow> (Inl e, v1)
      | (Inr u, v1) \<Rightarrow>
          (case read_through (Resize_releases (size_t (size_m v + 1)) v) (items_m v1) item of
             None \<Rightarrow> (Inl dangling_reference, v1)
           | Some x \<Rightarrow>
               (Inr (), v1\<lparr>items_m := moved_out env item x
                                        ((items_m v1)[size_t_minus (size_m v1) 1 := x])\<rparr>)))"

text \<open>
  \<open>Insert\<close> and \<open>Erase\<close> take and return a position: the index of the slot the iterator
  points to.
\<close>

definition Insert_copy ::
  "'a env \<Rightarrow> nat \<Rightarrow> 'a reference \<Rightarrow> 'a SimpleVector \<Rightarrow> (error + nat) \<times> 'a SimpleVector" where
  "Insert_copy env pos value v =
     (if \<not> (pos \<ge> 0 \<and> pos \<le> size_m v) then (Inl assertion_failed, v)
      else
        (let index = pos
         in (case Resize env (size_t (size_m v + 1)) v of
               (Inl e, v1) \<Rightarrow> (Inl e, v1)
             | (Inr u, v1) \<Rightarrow>
                 (let new_pos = index
                  in (case copy_move_backward_a env False (items_m v1) new_pos
                             (size_t_minus (size_m v1) 1) (size_m v1) of
                        (Inl e, buf) \<Rightarrow> (Inl e, v1\<lparr>items_m := buf\<rparr>)
                      | (Inr u, buf) \<Rightarrow>
                          (case read_through (Resize_releases (size_t (size_m v + 1)) v) buf value of
                             None \<Rightarrow> (Inl dangling_reference, v1\<lparr>items_m := buf\<rparr>)
                           | Some x \<Rightarrow>
                               if copy_throws env x
                               then (Inl copy_exception, v1\<lparr>items_m := buf\<rparr>)
                               else (Inr new_pos, v1\<lparr>items_m := buf[new_pos := x]\<rparr>)))))))"

definition Insert_move ::
  "'a env \<Rightarrow> nat \<Rightarrow> 'a reference \<Rightarrow> 'a SimpleVector \<Rightarrow> (error + nat) \<times> 'a SimpleVector" where
  "Insert_move env pos value v =
     (if \<not> (pos \<ge> 0 \<and> pos \<le> size_m v) then (Inl assertion_failed, v)
      else
        (let index = pos
         in (case Resize env (size_t (size_m v + 1)) v of
               (Inl e, v1) \<Rightarrow> (Inl e, v1)
             | (Inr u, v1) \<Rightarrow>
                 (let new_pos = index
                  in (case copy_move_backward_a env True (items_m v1) new_pos
                             (size_t_minus (size_m v1) 1) (size_m v1) of
                        (Inl e, buf) \<Rightarrow> (Inl e, v1\<lparr>items_m := buf\<rparr>)
                      | (Inr u, buf) \<Rightarrow>
                          (case read_through (Resize_releases (size_t (size_m v + 1)) v) buf value of
                             None \<Rightarrow> (Inl dangling_reference, v1\<lparr>items_m := buf\<rparr>)
                           | Some x \<Rightarrow>
                               (Inr new_pos,
                                v1\<lparr>items_m := moved_out env value x (buf[new_pos := x])\<rparr>)))))))"

definition PopBack :: "'a SimpleVector \<Rightarrow> 'a SimpleVector" where
  "PopBack v = (if size_m v > 0 then v\<lparr>size_m := size_m v - 1\<rparr> else v)"

definition Erase :: "'a env \<Rightarrow> nat \<Rightarrow> 'a SimpleVector \<Rightarrow> (error + nat) \<times> 'a SimpleVector" where
  "Erase env pos v =
     (if \<not> (pos \<ge> 0 \<and> pos < size_m v) then (Inl assertion_failed, v)
      else
        (let index = pos;
             buf = move_within env (items_m v) (index + 1) (size_m v) pos
         in (Inr index, v\<lparr>items_m := buf, size_m := size_m v - 1\<rparr>)))"

subsection \<open>Comparison\<close>

text \<open>
  \<open>std::equal\<close> and \<open>std::lexicographical_compare\<close> over two ranges, with the element type's
  \<open>==\<close> and \<open><\<close>.
\<close>

fun std_equal :: "'a list \<Rightarrow> 'a list \<Rightarrow> bool" where
  "std_equal [] [] = True"
| "std_equal (x # xs) (y # ys) = (x = y \<and> std_equal xs ys)"
| "std_equal xs ys = False"

fun lexicographical_compare :: "('a::ord) list \<Rightarrow> 'a list \<Rightarrow> bool" where
  "lexicographical_compare (x # xs) (y # ys) =
     (if x < y then True else if y < x then False else lexicographical_compare xs ys)"
| "lexicographical_compare xs ys = (xs = [] \<and> ys \<noteq> [])"

definition op_eq :: "'a SimpleVector \<Rightarrow> 'a SimpleVector \<Rightarrow> bool" where
  "op_eq lhs rhs = std_equal (elems lhs) (elems rhs)"

definition op_ne :: "'a SimpleVector \<Rightarrow> 'a SimpleVector \<Rightarrow> bool" where
  "op_ne lhs rhs = (\<not> op_eq lhs rhs)"

definition op_lt :: "('a::ord) SimpleVector \<Rightarrow> 'a SimpleVector \<Rightarrow> bool" where
  "op_lt lhs rhs = lexicographical_compare (elems lhs) (elems rhs)"

definition op_le :: "('a::ord) SimpleVector \<Rightarrow> 'a SimpleVector \<Rightarrow> bool" where
  "op_le lhs rhs = (\<not> op_lt rhs lhs)"

definition op_gt :: "('a::ord) SimpleVector \<Rightarrow> 'a SimpleVector \<Rightarrow> bool" where
  "op_gt lhs rhs = op_lt rhs lhs"

definition op_ge :: "('a::ord) SimpleVector \<Rightarrow> 'a SimpleVector \<Rightarrow> bool" where
  "op_ge lhs rhs = (\<not> op_lt lhs rhs)"

subsection \<open>Sequences of PushBack calls\<close>

text \<open>
  A call of \<open>PushBack\<close> selects one of the two overloads by the value category of its
  argument; a sequence of calls stops at the first exception.
\<close>

datatype 'a arg = by_copy "'a reference" | by_move "'a reference"

fun arg_ref :: "'a arg \<Rightarrow> 'a reference" where
  "arg_ref (by_copy r) = r"
| "arg_ref (by_move r) = r"

text \<open>The value a reference has when the call is made on the vector \<open>v\<close>.\<close>

fun passed_value :: "'a SimpleVector \<Rightarrow> 'a reference \<Rightarrow> 'a" where
  "passed_value v (outside x) = x"
| "passed_value v (slot j) = items_m v ! j"

text \<open>
  The calls whose argument is still there when \<open>PushBack\<close> reads it, and whose copy does not
  throw: an object outside the vector, or, for the copy overload, an element of the vector
  passed while a slot is free, so that \<open>Resize\<close> keeps the buffer. Moving from an element
  of the vector itself changes that element, and is left out.
\<close>

fun admissible :: "'a env \<Rightarrow> 'a SimpleVector \<Rightarrow> 'a arg \<Rightarrow> bool" where
  "admissible env v (by_copy (outside x)) = (\<not> copy_throws env x)"
| "admissible env v (by_copy (slot j)) =
     (j < size_m v \<and> size_m v < capacity_m v \<and> \<not> copy_throws env (items_m v ! j))"
| "admissible env v (by_move (outside x)) = True"
| "admissible env v (by_move (slot j)) = False"

fun PushBack :: "'a env \<Rightarrow> 'a arg \<Rightarrow> 'a SimpleVector \<Rightarrow> (error + unit) \<times> 'a SimpleVector" where
  "PushBack env (by_copy x) v = PushBack_copy env x v"
| "PushBack env (by_move x) v = PushBack_move env x v"

fun PushBack_all :: "'a env \<Rightarrow> 'a arg list \<Rightarrow> 'a SimpleVector \<Rightarrow> (error + unit) \<times> 'a SimpleVector" where
  "PushBack_all env [] v = (Inr (), v)"
| "PushBack_all env (a # as) v =
     (case PushBack env a v of
        (Inl e, v1) \<Rightarrow> (Inl e, v1)
      | (Inr u, v1) \<Rightarrow> PushBack_all env as v1)"

text \<open>The vector after the first \<open>n\<close> calls of a sequence, started on an empty vector.\<close>

definition after_pushes :: "'a env \<Rightarrow> 'a arg list \<Rightarrow> nat \<Rightarrow> 'a SimpleVector" where
  "after_pushes env cs n = snd (PushBack_all env (take n cs) SimpleVector_default)"

subsection \<open>Two element types for the examples\<close>

text \<open>
  \<open>int\<close>: copying never throws, a moved-from \<open>int\<close> keeps its value, \<open>int()\<close> is \<open>0\<close>, and
  a new block holds whatever was in memory, here \<open>-1\<close>. The second type is a class whose
  copy assignment throws when it is asked to copy the value \<open>4\<close>.
\<close>

definition int_env :: "int env" where
  "int_env = \<lparr>Type_default = 0, moved_from = (\<lambda>x. x), copy_throws = (\<lambda>x. False),
               uninit = (\<lambda>i. - 1), heap_limit = 1000\<rparr>"

definition fragile_env :: "int env" where
  "fragile_env = \<lparr>Type_default = 0, moved_from = (\<lambda>x. 0), copy_throws = (\<lambda>x. x = 4),
                   uninit = (\<lambda>i. 0), heap_limit = 1000\<rparr>"

text \<open>A vector of three elements in a buffer of four slots, and a store of two vectors.\<close>

definition vec3 :: "int SimpleVector" where
  "vec3 = \<lparr>items_m = [10, 20, 30, - 1], size_m = 3, capacity_m = 4\<rparr>"

definition store2 :: "int store" where
  "store2 = (\<lambda>a. SimpleVector_default)
     (0 := \<lparr>items_m = [1, 2], size_m = 2, capacity_m = 2\<rparr>,
      1 := \<lparr>items_m = [3, 4, 5, - 1], size_m = 3, capacity_m = 4\<rparr>)"

text \<open>
  Five calls of \<open>PushBack\<close>, of both overloads; the fourth passes the first element, while
  the vector has three elements in four slots.
\<close>

definition calls5 :: "int arg list" where
  "calls5 = [by_copy (outside 1), by_move (outside 2), by_copy (outside 3), by_copy (slot 0),
             by_move (outside 5)]"

text \<open>
  A vector without a free slot, and the two calls \<open>v.PushBack(1); v.PushBack(v[0]);\<close>.
\<close>

definition vec_full :: "int SimpleVector" where
  "vec_full = \<lparr>items_m = [10, 20, 30], size_m = 3, capacity_m = 3\<rparr>"

definition calls_aliased :: "int arg list" where
  "calls_aliased = [by_copy (outside 1), by_copy (slot 0)]"

section \<open>Properties of the operations\<close>

subsection \<open>Arithmetic, the allocator and the loops\<close>

lemma size_t_id: "n \<le> SIZE_MAX \<Longrightarrow> size_t n = n"
  by (simp add: size_t_def SIZE_MAX_def)

lemma size_t_minus_one:
  assumes "0 < n" and "n \<le> SIZE_MAX"
  shows "size_t_minus n 1 = n - 1"
proof -
  obtain m where n: "n = Suc m"
    using assms(1) by (cases n) auto
  have "(1::nat) mod (SIZE_MAX + 1) = 1"
    by (simp add: SIZE_MAX_def)
  then have "size_t_minus n 1 = (m + (SIZE_MAX + 1)) mod (SIZE_MAX + 1)"
    by (simp add: size_t_minus_def size_t_def n)
  also have "\<dots> = m mod (SIZE_MAX + 1)"
    by (rule mod_add_self2)
  also have "\<dots> = m"
    using assms(2) n by simp
  finally show ?thesis
    by (simp add: n)
qed

lemma PTRDIFF_MAX_twice: "n \<le> PTRDIFF_MAX \<Longrightarrow> 2 * n \<le> SIZE_MAX"
  by (simp add: PTRDIFF_MAX_def SIZE_MAX_def)

lemma PTRDIFF_MAX_Suc: "n \<le> PTRDIFF_MAX \<Longrightarrow> n + 1 \<le> SIZE_MAX"
  by (simp add: PTRDIFF_MAX_def SIZE_MAX_def)

lemma ArrayPtr_new_ok:
  "can_allocate env n \<Longrightarrow> ArrayPtr_new env n = Inr (map (uninit env) [0..<n])"
  by (simp add: ArrayPtr_new_def)

lemma ArrayPtr_new_Inr:
  "ArrayPtr_new env n = Inr buf \<Longrightarrow> length buf = n \<and> n \<le> PTRDIFF_MAX"
  by (auto simp: ArrayPtr_new_def can_allocate_def split: if_splits)

lemma ArrayPtr_new_Inl: "ArrayPtr_new env n = Inl e \<Longrightarrow> e = bad_alloc \<and> \<not> can_allocate env n"
  by (auto simp: ArrayPtr_new_def split: if_splits)

lemma fill_default_length [simp]: "length (fill_default env buf it last') = length buf"
  by (induction env buf it last' rule: fill_default.induct)
     (subst fill_default.simps, simp)

lemma fill_default_eq:
  "it \<le> last' \<Longrightarrow> last' \<le> length buf \<Longrightarrow>
   fill_default env buf it last' =
     take it buf @ replicate (last' - it) (Type_default env) @ drop last' buf"
proof (induction env buf it last' rule: fill_default.induct)
  case (1 env buf it last')
  show ?case
  proof (cases "it < last'")
    case True
    then have "fill_default env buf it last' =
        fill_default env (buf[it := Type_default env]) (Suc it) last'"
      by (subst fill_default.simps) simp
    also have "\<dots> = take (Suc it) (buf[it := Type_default env])
        @ replicate (last' - Suc it) (Type_default env) @ drop last' (buf[it := Type_default env])"
      using "1.IH" [OF True] True "1.prems" by simp
    also have "\<dots> = take it buf @ replicate (last' - it) (Type_default env) @ drop last' buf"
      using True "1.prems"
      by (simp add: take_Suc_conv_app_nth replicate_append_same Suc_diff_Suc flip: replicate_Suc)
    finally show ?thesis .
  next
    case False
    with "1.prems" show ?thesis by (subst fill_default.simps) simp
  qed
qed

lemma copy_move_a_length [simp]:
  "length (snd (copy_move_a env m xs dst r)) = length dst"
  by (induction xs arbitrary: dst r) auto

lemma copy_move_a_ok:
  "\<forall>x\<in>set xs. \<not> assign_throws env m x \<Longrightarrow> r + length xs \<le> length dst \<Longrightarrow>
   copy_move_a env m xs dst r = (Inr (), take r dst @ xs @ drop (r + length xs) dst)"
proof (induction xs arbitrary: dst r)
  case Nil
  then show ?case by simp
next
  case (Cons x xs)
  then show ?case
    by (simp add: take_Suc_conv_app_nth)
qed

lemma copy_move_a_Inr:
  "copy_move_a env m xs dst r = (Inr u, buf) \<Longrightarrow> \<forall>x\<in>set xs. \<not> assign_throws env m x"
  by (induction xs arbitrary: dst r) (auto split: if_splits)

lemma copy_move_a_Inl:
  "copy_move_a env m xs dst r = (Inl e, buf) \<Longrightarrow> e = copy_exception \<and> (\<exists>x\<in>set xs. assign_throws env m x)"
  by (induction xs arbitrary: dst r) (auto split: if_splits)

lemma move_within_length [simp]:
  "length (move_within env buf first last' result) = length buf"
  by (induction env buf first last' result rule: move_within.induct)
     (subst move_within.simps, simp)

lemma move_within_nth:
  "first = Suc result \<Longrightarrow> last' \<le> length buf \<Longrightarrow> k < length buf \<Longrightarrow>
   move_within env buf first last' result ! k =
     (if k < result then buf ! k
      else if Suc k < last' then buf ! Suc k
      else if Suc k = last' \<and> first < last' then moved_from env (buf ! k)
      else buf ! k)"
proof (induction env buf first last' result rule: move_within.induct)
  case (1 env buf first last' result)
  show ?case
  proof (cases "first < last'")
    case True
    let ?buf = "buf[result := buf ! first, first := moved_from env (buf ! first)]"
    have unfold: "move_within env buf first last' result =
        move_within env ?buf (Suc first) last' (Suc result)"
      using True by (subst move_within.simps) simp
    have "move_within env ?buf (Suc first) last' (Suc result) ! k =
        (if k < Suc result then ?buf ! k
         else if Suc k < last' then ?buf ! Suc k
         else if Suc k = last' \<and> Suc first < last' then moved_from env (?buf ! k)
         else ?buf ! k)"
      using "1.IH" [OF True] "1.prems" by simp
    note IH = this
    consider "k < result" | "k = result" | "result < k" "Suc k < last'"
      | "k = Suc result" "Suc k = last'" | "Suc result < k" "Suc k = last'" | "last' \<le> k"
      by linarith
    then show ?thesis
    proof cases
      case 1
      then show ?thesis
        unfolding unfold using IH "1.prems" True by (simp add: nth_list_update)
    next
      case 2
      then show ?thesis
        unfolding unfold using IH "1.prems" True by (simp add: nth_list_update)
    next
      case 3
      then show ?thesis
        unfolding unfold using IH "1.prems" True by (simp add: nth_list_update)
    next
      case 4
      then show ?thesis
        unfolding unfold using IH "1.prems" True by (simp add: nth_list_update)
    next
      case 5
      then show ?thesis
        unfolding unfold using IH "1.prems" True by (simp add: nth_list_update)
    next
      case 6
      then show ?thesis
        unfolding unfold using IH "1.prems" True by (simp add: nth_list_update)
    qed
  next
    case False
    then show ?thesis
      using "1.prems" by (subst move_within.simps) auto
  qed
qed

lemma copy_move_backward_a_length [simp]:
  "length (snd (copy_move_backward_a env m buf first last' d_last)) = length buf"
  by (induction env m buf first last' d_last rule: copy_move_backward_a.induct)
     (subst copy_move_backward_a.simps, simp)

lemma copy_move_backward_a_nth:
  "d_last = Suc last' \<Longrightarrow> last' < length buf \<Longrightarrow> k < length buf \<Longrightarrow>
   copy_move_backward_a env m buf first last' d_last = (Inr u, r) \<Longrightarrow>
   r ! k =
     (if k < first then buf ! k
      else if k = first then (if first < last' then left_behind env m (buf ! first) else buf ! first)
      else if k \<le> last' then buf ! (k - 1)
      else buf ! k)"
proof (induction env m buf first last' d_last arbitrary: r rule: copy_move_backward_a.induct)
  case (1 env m buf first last' d_last)
  show ?case
  proof (cases "first < last'")
    case True
    let ?l = "last' - 1"
    let ?buf = "buf[d_last - 1 := buf ! ?l, ?l := left_behind env m (buf ! ?l)]"
    have nothrow: "\<not> assign_throws env m (buf ! ?l)"
      using True "1.prems"(4) by (subst (asm) copy_move_backward_a.simps) auto
    have unfold: "copy_move_backward_a env m buf first last' d_last =
        copy_move_backward_a env m ?buf first ?l (d_last - 1)"
      using True nothrow by (subst copy_move_backward_a.simps) simp
    have "r ! k =
        (if k < first then ?buf ! k
         else if k = first then (if first < ?l then left_behind env m (?buf ! first) else ?buf ! first)
         else if k \<le> ?l then ?buf ! (k - 1)
         else ?buf ! k)"
      using "1.IH" [OF True nothrow, of r] "1.prems" True unfolding unfold by simp
    then show ?thesis
      using True "1.prems"(1,2,3)
      by (auto simp: nth_list_update)
  next
    case False
    then show ?thesis
      using "1.prems" by (subst (asm) copy_move_backward_a.simps) auto
  qed
qed

lemma copy_move_backward_a_ok:
  "d_last = Suc last' \<Longrightarrow> last' < length buf \<Longrightarrow>
   \<forall>k. first \<le> k \<and> k < last' \<longrightarrow> \<not> assign_throws env m (buf ! k) \<Longrightarrow>
   fst (copy_move_backward_a env m buf first last' d_last) = Inr ()"
proof (induction env m buf first last' d_last rule: copy_move_backward_a.induct)
  case (1 env m buf first last' d_last)
  show ?case
  proof (cases "first < last'")
    case True
    let ?l = "last' - 1"
    let ?buf = "buf[d_last - 1 := buf ! ?l, ?l := left_behind env m (buf ! ?l)]"
    have nothrow: "\<not> assign_throws env m (buf ! ?l)"
      using True "1.prems"(3) by simp
    have unfold: "copy_move_backward_a env m buf first last' d_last =
        copy_move_backward_a env m ?buf first ?l (d_last - 1)"
      using True nothrow by (subst copy_move_backward_a.simps) simp
    have "\<forall>k. first \<le> k \<and> k < ?l \<longrightarrow> \<not> assign_throws env m (?buf ! k)"
      using "1.prems" True by (auto simp: nth_list_update)
    then show ?thesis
      using "1.IH" [OF True nothrow] "1.prems" True unfolding unfold by simp
  next
    case False
    then show ?thesis
      by (subst copy_move_backward_a.simps) auto
  qed
qed

subsection \<open>Resize\<close>

lemma Resize_shrink:
  "new_size \<le> size_m v \<Longrightarrow> Resize env new_size v = (Inr (), v\<lparr>size_m := new_size\<rparr>)"
  by (simp add: Resize_def)

lemma Resize_in_place:
  assumes "invariant v" and "size_m v < new_size" and "new_size \<le> capacity_m v"
  shows "Resize env new_size v =
    (Inr (), v\<lparr>items_m := elems v @ replicate (new_size - size_m v) (Type_default env)
                              @ drop new_size (items_m v),
               size_m := new_size\<rparr>)"
  using assms by (simp add: Resize_def invariant_def elems_def fill_default_eq)

lemma Resize_realloc:
  assumes "invariant v" and "capacity_m v < new_size"
    and "can_allocate env (max new_size (2 * capacity_m v))"
  shows "Resize env new_size v =
    (Inr (), v\<lparr>items_m := elems v @ replicate (new_size - size_m v) (Type_default env)
                   @ drop new_size (map (uninit env) [0..<max new_size (2 * capacity_m v)]),
               size_m := new_size,
               capacity_m := max new_size (2 * capacity_m v)\<rparr>)"
proof -
  let ?c = "max new_size (2 * capacity_m v)"
  let ?new = "map (uninit env) [0..<?c]"
  have wrap: "size_t (2 * capacity_m v) = 2 * capacity_m v"
    using assms(1) by (simp add: invariant_def size_t_id PTRDIFF_MAX_twice)
  have len: "length (elems v) = size_m v" and le: "size_m v \<le> new_size"
    using assms(1,2) by (simp_all add: invariant_def elems_def)
  have moved: "copy_move_a env True (elems v) ?new 0 =
      (Inr (), elems v @ drop (size_m v) ?new)"
    using copy_move_a_ok [of "elems v" env True 0 ?new] len le
    by (simp add: assign_throws_def)
  have filled: "fill_default env (elems v @ drop (size_m v) ?new) (size_m v) new_size =
      elems v @ replicate (new_size - size_m v) (Type_default env) @ drop new_size ?new"
    using fill_default_eq [of "size_m v" new_size "elems v @ drop (size_m v) ?new" env] len le
    by simp
  have "\<not> new_size \<le> size_m v" and "\<not> new_size \<le> capacity_m v"
    using assms(1,2) by (simp_all add: invariant_def)
  then show ?thesis
    by (simp add: Resize_def Let_def wrap ArrayPtr_new_ok [OF assms(3)] moved filled
        ArrayPtr_swap_def)
qed

lemma Resize_bad_alloc:
  assumes "invariant v" and "capacity_m v < new_size"
    and "\<not> can_allocate env (max new_size (2 * capacity_m v))"
  shows "Resize env new_size v = (Inl bad_alloc, v)"
proof -
  have wrap: "size_t (2 * capacity_m v) = 2 * capacity_m v"
    using assms(1) by (simp add: invariant_def size_t_id PTRDIFF_MAX_twice)
  have "\<not> new_size \<le> size_m v" and "\<not> new_size \<le> capacity_m v"
    using assms(1,2) by (simp_all add: invariant_def)
  then show ?thesis
    using assms(2,3) by (auto simp: Resize_def Let_def wrap ArrayPtr_new_def)
qed

lemma Resize_grow:
  assumes "invariant v" and "size_m v \<le> new_size" and "Resize env new_size v = (Inr u, v')"
  shows "invariant v' \<and> size_m v' = new_size
    \<and> elems v' = elems v @ replicate (new_size - size_m v) (Type_default env)
    \<and> capacity_m v' = (if new_size \<le> capacity_m v then capacity_m v
                        else max new_size (2 * capacity_m v))"
proof -
  consider "new_size = size_m v" | "size_m v < new_size" "new_size \<le> capacity_m v"
    | "capacity_m v < new_size" "can_allocate env (max new_size (2 * capacity_m v))"
    | "capacity_m v < new_size" "\<not> can_allocate env (max new_size (2 * capacity_m v))"
    using assms(2) by linarith
  then show ?thesis
  proof cases
    case 1
    then show ?thesis
      using assms by (auto simp: Resize_shrink invariant_def)
  next
    case 2
    then show ?thesis
      using assms Resize_in_place [OF assms(1) 2, of env]
      by (auto simp: invariant_def elems_def)
  next
    case 3
    then show ?thesis
      using assms Resize_realloc [OF assms(1) 3]
      by (auto simp: invariant_def elems_def can_allocate_def)
  next
    case 4
    then show ?thesis
      using assms Resize_bad_alloc [OF assms(1) 4] by simp
  qed
qed

lemma Resize_returns:
  assumes "invariant v"
    and "new_size \<le> capacity_m v \<or> can_allocate env (max new_size (2 * capacity_m v))"
  shows "fst (Resize env new_size v) = Inr ()"
proof -
  consider "new_size \<le> size_m v" | "size_m v < new_size" "new_size \<le> capacity_m v"
    | "capacity_m v < new_size" "can_allocate env (max new_size (2 * capacity_m v))"
    using assms(2) by linarith
  then show ?thesis
  proof cases
    case 1
    then show ?thesis by (simp add: Resize_shrink)
  next
    case 2
    then show ?thesis by (simp add: Resize_in_place [OF assms(1)])
  next
    case 3
    then show ?thesis by (simp add: Resize_realloc [OF assms(1)])
  qed
qed

lemma Resize_invariant:
  assumes "invariant v"
  shows "invariant (snd (Resize env new_size v))"
proof (cases "new_size \<le> size_m v")
  case True
  then show ?thesis
    using assms by (simp add: Resize_shrink invariant_def)
next
  case False
  show ?thesis
  proof (cases "fst (Resize env new_size v)")
    case (Inl e)
    then have "snd (Resize env new_size v) = v"
      by (auto simp: Resize_def Let_def ArrayPtr_swap_def split: if_splits sum.splits prod.splits)
    then show ?thesis
      using assms by simp
  next
    case (Inr u)
    then have "Resize env new_size v = (Inr u, snd (Resize env new_size v))"
      by (metis prod.collapse)
    from Resize_grow [OF assms _ this] False show ?thesis
      by simp
  qed
qed

subsection \<open>PopBack and Erase\<close>

lemma PopBack_invariant: "invariant v \<Longrightarrow> invariant (PopBack v)"
  by (auto simp: PopBack_def invariant_def)



lemma move_within_take:
  assumes "last' \<le> length buf"
  shows "take result (move_within env buf (Suc result) last' result) = take result buf"
proof (rule nth_equalityI)
  show "length (take result (move_within env buf (Suc result) last' result))
      = length (take result buf)"
    by simp
next
  fix k
  assume "k < length (take result (move_within env buf (Suc result) last' result))"
  then have "k < result" and "k < length buf"
    by simp_all
  then show "take result (move_within env buf (Suc result) last' result) ! k
      = take result buf ! k"
    using assms by (simp add: move_within_nth)
qed

lemma move_within_drop:
  assumes "last' \<le> length buf" and "result < last'"
  shows "drop last' (move_within env buf (Suc result) last' result) = drop last' buf"
proof (rule nth_equalityI)
  show "length (drop last' (move_within env buf (Suc result) last' result))
      = length (drop last' buf)"
    by simp
next
  fix k
  assume "k < length (drop last' (move_within env buf (Suc result) last' result))"
  then have "last' + k < length buf"
    by simp
  then show "drop last' (move_within env buf (Suc result) last' result) ! k
      = drop last' buf ! k"
    using assms by (simp add: move_within_nth)
qed

lemma Erase_ok:
  assumes "pos < size_m v"
  shows "Erase env pos v =
    (Inr pos, v\<lparr>items_m := move_within env (items_m v) (Suc pos) (size_m v) pos,
                 size_m := size_m v - 1\<rparr>)"
  using assms by (simp add: Erase_def)

lemma Erase_elems:
  assumes "invariant v" and "pos < size_m v"
  shows "elems (snd (Erase env pos v)) = take pos (elems v) @ drop (Suc pos) (elems v)"
proof (rule nth_equalityI)
  have len: "size_m v \<le> length (items_m v)"
    using assms(1) by (simp add: invariant_def)
  show "length (elems (snd (Erase env pos v)))
      = length (take pos (elems v) @ drop (Suc pos) (elems v))"
    using assms(2) len by (simp add: Erase_ok elems_def)
  fix k
  assume "k < length (elems (snd (Erase env pos v)))"
  then have k: "k < size_m v - 1"
    using assms(2) by (simp add: Erase_ok elems_def)
  then have Sk: "Suc k < size_m v"
    by linarith
  have "elems (snd (Erase env pos v)) ! k =
      (if k < pos then items_m v ! k else items_m v ! Suc k)"
    using assms(2) len k Sk by (simp add: Erase_ok elems_def move_within_nth)
  also have "\<dots> = (take pos (elems v) @ drop (Suc pos) (elems v)) ! k"
    using k Sk assms(2) len by (simp add: elems_def nth_append)
  finally show "elems (snd (Erase env pos v)) ! k
      = (take pos (elems v) @ drop (Suc pos) (elems v)) ! k" .
qed

lemma Erase_invariant:
  assumes "invariant v" and "pos < size_m v"
  shows "invariant (snd (Erase env pos v))"
  using assms by (auto simp: Erase_ok invariant_def)

subsection \<open>Reserve\<close>

lemma Reserve_noop:
  "new_capacity \<le> capacity_m v \<Longrightarrow> Reserve env new_capacity v = (Inr (), v)"
  by (simp add: Reserve_def)

lemma Reserve_realloc:
  assumes "invariant v" and "capacity_m v < new_capacity" and "can_allocate env new_capacity"
    and "\<forall>x\<in>set (elems v). \<not> copy_throws env x"
  shows "Reserve env new_capacity v =
    (Inr (), v\<lparr>items_m := elems v @ drop (size_m v) (map (uninit env) [0..<new_capacity]),
               capacity_m := new_capacity\<rparr>)"
proof -
  let ?new = "map (uninit env) [0..<new_capacity]"
  have len: "length (elems v) = size_m v" and le: "size_m v \<le> new_capacity"
    using assms(1,2) by (simp_all add: invariant_def elems_def)
  have "copy_move_a env False (elems v) ?new 0 = (Inr (), elems v @ drop (size_m v) ?new)"
    using copy_move_a_ok [of "elems v" env False 0 ?new] len le assms(4)
    by (simp add: assign_throws_def)
  then show ?thesis
    using assms(2) by (simp add: Reserve_def ArrayPtr_new_ok [OF assms(3)] ArrayPtr_swap_def)
qed

lemma Reserve_failure:
  "fst (Reserve env new_capacity v) = Inl e \<Longrightarrow> snd (Reserve env new_capacity v) = v"
  by (auto simp: Reserve_def ArrayPtr_swap_def split: if_splits sum.splits prod.splits)

lemma Reserve_grow:
  assumes "invariant v" and "capacity_m v < new_capacity"
    and "Reserve env new_capacity v = (Inr u, v')"
  shows "invariant v' \<and> capacity_m v' = new_capacity \<and> size_m v' = size_m v
    \<and> elems v' = elems v"
proof -
  from assms(2,3) obtain new_items copied where
    alloc: "ArrayPtr_new env new_capacity = Inr new_items" and
    copy: "copy_move_a env False (elems v) new_items 0 = (Inr (), copied)" and
    v': "v' = v\<lparr>items_m := copied, capacity_m := new_capacity\<rparr>"
    by (auto simp: Reserve_def ArrayPtr_swap_def split: sum.splits prod.splits)
  have nothrow: "\<forall>x\<in>set (elems v). \<not> copy_throws env x"
    using copy_move_a_Inr [OF copy] by (simp add: assign_throws_def)
  have can: "can_allocate env new_capacity"
    using alloc assms(2) by (auto simp: ArrayPtr_new_def split: if_splits)
  have "v' = v\<lparr>items_m := elems v @ drop (size_m v) (map (uninit env) [0..<new_capacity]),
               capacity_m := new_capacity\<rparr>"
    using Reserve_realloc [OF assms(1,2) can nothrow] assms(3) by simp
  then show ?thesis
    using assms(1,2) can by (auto simp: invariant_def elems_def can_allocate_def)
qed

subsection \<open>Insert\<close>

lemma size_plus_one:
  assumes "invariant v"
  shows "size_t (size_m v + 1) = size_m v + 1"
    and "size_t_minus (size_m v + 1) 1 = size_m v"
proof -
  have "size_m v \<le> PTRDIFF_MAX"
    using assms by (simp add: invariant_def)
  then have le: "size_m v + 1 \<le> SIZE_MAX"
    by (rule PTRDIFF_MAX_Suc)
  then show "size_t (size_m v + 1) = size_m v + 1"
    by (rule size_t_id)
  show "size_t_minus (size_m v + 1) 1 = size_m v"
    using size_t_minus_one [of "size_m v + 1"] le by simp
qed

lemma size_Suc:
  assumes "invariant v"
  shows "size_t (Suc (size_m v)) = Suc (size_m v)"
    and "size_t_minus (Suc (size_m v)) (Suc 0) = size_m v"
  using size_plus_one [OF assms] by simp_all

lemma insert_tail:
  assumes "invariant v1" and "size_m v1 = Suc n" and "pos \<le> n"
    and "copy_move_backward_a env m (items_m v1) pos n (Suc n) = (Inr u, buf)"
  shows "elems (v1\<lparr>items_m := buf[pos := x]\<rparr>)
      = take pos (elems v1) @ x # drop pos (take n (elems v1))"
    and "invariant (v1\<lparr>items_m := buf[pos := x]\<rparr>)"
proof -
  have len: "Suc n \<le> length (items_m v1)"
    using assms(1,2) by (simp add: invariant_def)
  have buf_len: "length buf = length (items_m v1)"
    using copy_move_backward_a_length [of env m "items_m v1" pos n "Suc n"] assms(4) by simp
  show "invariant (v1\<lparr>items_m := buf[pos := x]\<rparr>)"
    using assms(1) buf_len by (simp add: invariant_def)
  show "elems (v1\<lparr>items_m := buf[pos := x]\<rparr>)
      = take pos (elems v1) @ x # drop pos (take n (elems v1))"
  proof (rule nth_equalityI)
    show "length (elems (v1\<lparr>items_m := buf[pos := x]\<rparr>))
        = length (take pos (elems v1) @ x # drop pos (take n (elems v1)))"
      using len buf_len assms(2,3) by (simp add: elems_def)
    fix k
    assume "k < length (elems (v1\<lparr>items_m := buf[pos := x]\<rparr>))"
    then have k: "k < Suc n"
      using assms(2) by (simp add: elems_def)
    then have k_len: "k < length (items_m v1)"
      using len by linarith
    have shifted: "buf ! k =
        (if k < pos then items_m v1 ! k
         else if k = pos
           then (if pos < n then left_behind env m (items_m v1 ! pos) else items_m v1 ! pos)
         else if k \<le> n then items_m v1 ! (k - 1)
         else items_m v1 ! k)"
      using copy_move_backward_a_nth [OF refl _ k_len assms(4)] len by simp
    consider "k < pos" | "k = pos" | "pos < k"
      by linarith
    then show "elems (v1\<lparr>items_m := buf[pos := x]\<rparr>) ! k
        = (take pos (elems v1) @ x # drop pos (take n (elems v1))) ! k"
    proof cases
      case 1
      then show ?thesis
        using k k_len buf_len assms(2,3) shifted by (simp add: elems_def nth_append)
    next
      case 2
      then show ?thesis
        using k k_len buf_len assms(2,3) by (simp add: elems_def nth_append)
    next
      case 3
      then obtain j where j: "k = Suc (pos + j)"
        using less_iff_Suc_add by auto
      then show ?thesis
        using k k_len buf_len assms(2,3) shifted by (simp add: elems_def nth_append)
    qed
  qed
qed

lemma Insert_tail_elems:
  assumes "invariant v" and "pos \<le> size_m v"
    and "Resize env (size_m v + 1) v = (Inr u, v1)"
    and "copy_move_backward_a env m (items_m v1) pos (size_m v) (size_m v + 1) = (Inr u', buf)"
  shows "elems (v1\<lparr>items_m := buf[pos := x]\<rparr>) = take pos (elems v) @ x # drop pos (elems v)"
    and "invariant (v1\<lparr>items_m := buf[pos := x]\<rparr>)"
    and "size_m v1 = size_m v + 1"
proof -
  have grown: "invariant v1" "size_m v1 = Suc (size_m v)"
    "elems v1 = elems v @ [Type_default env]"
    using Resize_grow [OF assms(1) _ assms(3)] by simp_all
  have len: "length (elems v) = size_m v"
    using assms(1) by (simp add: invariant_def elems_def)
  have shift: "copy_move_backward_a env m (items_m v1) pos (size_m v) (Suc (size_m v)) = (Inr u', buf)"
    using assms(4) by simp
  show "size_m v1 = size_m v + 1"
    using grown(2) by simp
  show "invariant (v1\<lparr>items_m := buf[pos := x]\<rparr>)"
    using insert_tail(2) [OF grown(1,2) assms(2) shift] .
  show "elems (v1\<lparr>items_m := buf[pos := x]\<rparr>) = take pos (elems v) @ x # drop pos (elems v)"
    using insert_tail(1) [OF grown(1,2) assms(2) shift, of x] assms(2) len
    by (simp add: grown(3))
qed

lemma Insert_copy_result:
  assumes "invariant v" and "pos \<le> size_m v" and "Insert_copy env pos r v = (Inr p, v2)"
  shows "p = pos \<and> invariant v2 \<and> size_m v2 = size_m v + 1
    \<and> (\<exists>y. elems v2 = take pos (elems v) @ y # drop pos (elems v)
            \<and> (\<forall>x. r = outside x \<longrightarrow> y = x))"
proof -
  from assms(2,3) obtain u v1 u' buf y where
    resize: "Resize env (size_m v + 1) v = (Inr u, v1)" and
    shift: "copy_move_backward_a env False (items_m v1) pos (size_t_minus (size_m v1) 1) (size_m v1)
      = (Inr u', buf)" and
    read: "read_through (Resize_releases (Suc (size_m v)) v) buf r = Some y" and
    res: "p = pos" "v2 = v1\<lparr>items_m := buf[pos := y]\<rparr>"
    by (auto simp: Insert_copy_def size_Suc [OF assms(1)]
        split: prod.splits sum.splits if_splits option.splits)
  have "size_m v1 = size_m v + 1"
    using Resize_grow [OF assms(1) _ resize] by simp
  then have "copy_move_backward_a env False (items_m v1) pos (size_m v) (size_m v + 1) = (Inr u', buf)"
    using shift size_plus_one(2) [OF assms(1)] by simp
  note tail = Insert_tail_elems [OF assms(1,2) resize this]
  have "\<forall>x. r = outside x \<longrightarrow> y = x"
    using read by auto
  with tail(1) [of y] tail(2) [of y] tail(3) res show ?thesis
    by auto
qed

lemma Insert_move_result:
  assumes "invariant v" and "pos \<le> size_m v"
    and "Insert_move env pos (outside x) v = (Inr p, v2)"
  shows "p = pos \<and> invariant v2 \<and> size_m v2 = size_m v + 1
    \<and> elems v2 = take pos (elems v) @ x # drop pos (elems v)"
proof -
  from assms(2,3) obtain u v1 u' buf where
    resize: "Resize env (size_m v + 1) v = (Inr u, v1)" and
    shift: "copy_move_backward_a env True (items_m v1) pos (size_t_minus (size_m v1) 1) (size_m v1)
      = (Inr u', buf)" and
    res: "p = pos" "v2 = v1\<lparr>items_m := buf[pos := x]\<rparr>"
    by (auto simp: Insert_move_def size_Suc [OF assms(1)]
        split: prod.splits sum.splits if_splits)
  have "size_m v1 = size_m v + 1"
    using Resize_grow [OF assms(1) _ resize] by simp
  then have "copy_move_backward_a env True (items_m v1) pos (size_m v) (size_m v + 1) = (Inr u', buf)"
    using shift size_plus_one(2) [OF assms(1)] by simp
  note tail = Insert_tail_elems [OF assms(1,2) resize this]
  from tail(1) [of x] tail(2) [of x] tail(3) res show ?thesis
    by simp
qed

lemma Insert_shift_returns:
  assumes "invariant v" and "pos \<le> size_m v"
    and "Resize env (size_m v + 1) v = (Inr u, v1)"
    and "\<forall>y\<in>set (drop pos (elems v)). \<not> assign_throws env m y"
  shows "fst (copy_move_backward_a env m (items_m v1) pos (size_t_minus (size_m v1) 1) (size_m v1))
    = Inr ()"
proof -
  have grown: "invariant v1" "size_m v1 = Suc (size_m v)"
    "elems v1 = elems v @ [Type_default env]"
    using Resize_grow [OF assms(1) _ assms(3)] by simp_all
  have len: "size_m v < length (items_m v1)" and len0: "length (elems v) = size_m v"
    using grown(1,2) assms(1) by (simp_all add: invariant_def elems_def)
  have "\<not> assign_throws env m (items_m v1 ! k)" if "pos \<le> k" and "k < size_m v" for k
  proof -
    have "items_m v1 ! k = elems v1 ! k"
      using that grown(2) by (simp add: elems_def)
    also have "\<dots> = elems v ! k"
      using that len0 by (simp add: grown(3) nth_append)
    also have "\<dots> = drop pos (elems v) ! (k - pos)"
      using that len0 by simp
    also have "\<dots> \<in> set (drop pos (elems v))"
      using that len0 by (intro nth_mem) simp
    finally show ?thesis
      using assms(4) by blast
  qed
  then have "fst (copy_move_backward_a env m (items_m v1) pos (size_m v) (Suc (size_m v))) = Inr ()"
    using len by (intro copy_move_backward_a_ok) auto
  then show ?thesis
    using grown(2) size_plus_one(2) [OF assms(1)] by simp
qed

lemma Insert_move_returns:
  assumes "invariant v" and "pos \<le> size_m v"
    and "size_m v < capacity_m v \<or> can_allocate env (max (size_m v + 1) (2 * capacity_m v))"
  shows "fst (Insert_move env pos (outside x) v) = Inr pos"
proof -
  have "fst (Resize env (size_m v + 1) v) = Inr ()"
    using assms(3) by (intro Resize_returns [OF assms(1)]) auto
  then obtain v1 where resize: "Resize env (size_m v + 1) v = (Inr (), v1)"
    by (metis prod.collapse)
  have "fst (copy_move_backward_a env True (items_m v1) pos (size_t_minus (size_m v1) 1)
      (size_m v1)) = Inr ()"
    by (rule Insert_shift_returns [OF assms(1,2) resize]) (simp add: assign_throws_def)
  then show ?thesis
    using assms(2) resize
    by (auto simp: Insert_move_def size_Suc [OF assms(1)] split: prod.splits sum.splits)
qed

lemma Insert_copy_returns:
  assumes "invariant v" and "pos \<le> size_m v"
    and "size_m v < capacity_m v \<or> can_allocate env (max (size_m v + 1) (2 * capacity_m v))"
    and "\<not> copy_throws env x" and "\<forall>y\<in>set (drop pos (elems v)). \<not> copy_throws env y"
  shows "fst (Insert_copy env pos (outside x) v) = Inr pos"
proof -
  have "fst (Resize env (size_m v + 1) v) = Inr ()"
    using assms(3) by (intro Resize_returns [OF assms(1)]) auto
  then obtain v1 where resize: "Resize env (size_m v + 1) v = (Inr (), v1)"
    by (metis prod.collapse)
  have "fst (copy_move_backward_a env False (items_m v1) pos (size_t_minus (size_m v1) 1)
      (size_m v1)) = Inr ()"
    using assms(5) by (intro Insert_shift_returns [OF assms(1,2) resize]) (simp add: assign_throws_def)
  then show ?thesis
    using assms(2,4) resize
    by (auto simp: Insert_copy_def size_Suc [OF assms(1)] split: prod.splits sum.splits)
qed

lemma Insert_copy_slot_returns:
  assumes "invariant v" and "pos \<le> size_m v" and "size_m v < capacity_m v"
    and "j < size_m v" and "\<forall>y\<in>set (elems v). \<not> copy_throws env y"
  shows "fst (Insert_copy env pos (slot j) v) = Inr pos"
proof -
  have "fst (Resize env (size_m v + 1) v) = Inr ()"
    using assms(3) by (intro Resize_returns [OF assms(1)]) auto
  then obtain v1 where resize: "Resize env (size_m v + 1) v = (Inr (), v1)"
    by (metis prod.collapse)
  have grown: "invariant v1" "size_m v1 = Suc (size_m v)"
    "elems v1 = elems v @ [Type_default env]"
    using Resize_grow [OF assms(1) _ resize] by simp_all
  have len: "size_m v < length (items_m v1)" and len0: "length (elems v) = size_m v"
    using grown(1,2) assms(1) by (simp_all add: invariant_def elems_def)
  have old: "items_m v1 ! k \<in> set (elems v)" if "k < size_m v" for k
  proof -
    have "items_m v1 ! k = elems v1 ! k"
      using that grown(2) by (simp add: elems_def)
    also have "\<dots> = elems v ! k"
      using that len0 by (simp add: grown(3) nth_append)
    also have "\<dots> \<in> set (elems v)"
      using that len0 by simp
    finally show ?thesis .
  qed
  have "\<forall>y\<in>set (drop pos (elems v)). \<not> assign_throws env False y"
    using assms(5) by (auto simp: assign_throws_def dest: in_set_dropD)
  from Insert_shift_returns [OF assms(1,2) resize this]
  obtain buf where shift:
    "copy_move_backward_a env False (items_m v1) pos (size_m v) (Suc (size_m v)) = (Inr (), buf)"
    using grown(2) size_Suc(2) [OF assms(1)] by (metis One_nat_def prod.collapse)
  have buf_len: "length buf = length (items_m v1)"
    using copy_move_backward_a_length [of env False "items_m v1" pos "size_m v" "Suc (size_m v)"]
      shift by simp
  have j_len: "j < length (items_m v1)"
    using assms(4) len by linarith
  have "buf ! j =
      (if j < pos then items_m v1 ! j
       else if j = pos
         then (if pos < size_m v then left_behind env False (items_m v1 ! pos) else items_m v1 ! pos)
       else if j \<le> size_m v then items_m v1 ! (j - 1)
       else items_m v1 ! j)"
    using copy_move_backward_a_nth [OF refl len j_len shift] .
  then have "buf ! j \<in> set (elems v)"
    using assms(4) old [of j] old [of "j - 1"] by (auto simp: left_behind_def)
  then have nothrow: "\<not> copy_throws env (buf ! j)"
    using assms(5) by blast
  have keeps: "\<not> Resize_releases (Suc (size_m v)) v"
    using assms(3) by (simp add: Resize_releases_def)
  show ?thesis
    using assms(2) resize shift grown(2) nothrow keeps j_len buf_len
    by (simp add: Insert_copy_def size_Suc [OF assms(1)])
qed

lemma Erase_after_insert:
  assumes "invariant v" and "pos \<le> size_m v" and "invariant v2"
    and "size_m v2 = size_m v + 1"
    and "elems v2 = take pos (elems v) @ x # drop pos (elems v)"
  shows "fst (Erase env pos v2) = Inr pos \<and> elems (snd (Erase env pos v2)) = elems v"
proof -
  have pos: "pos < size_m v2"
    using assms(2,4) by simp
  have len: "length (elems v) = size_m v"
    using assms(1) by (simp add: invariant_def elems_def)
  have "elems (snd (Erase env pos v2)) = take pos (elems v2) @ drop (Suc pos) (elems v2)"
    by (rule Erase_elems [OF assms(3) pos])
  also have "\<dots> = take pos (elems v) @ drop pos (elems v)"
    using assms(2) len by (simp add: assms(5))
  finally show ?thesis
    using pos by (simp add: Erase_ok)
qed

subsection \<open>PushBack\<close>

lemma can_allocate_mono: "can_allocate env n \<Longrightarrow> m \<le> n \<Longrightarrow> can_allocate env m"
  by (simp add: can_allocate_def)

lemma PushBack_all_snoc:
  "PushBack_all env (cs @ [a]) v =
     (case PushBack_all env cs v of
        (Inl e, v1) \<Rightarrow> (Inl e, v1)
      | (Inr u, v1) \<Rightarrow> PushBack env a v1)"
  by (induction cs arbitrary: v) (auto split: prod.splits sum.splits)

lemma push_tail:
  assumes "invariant v" and "Resize env (Suc (size_m v)) v = (Inr u, v1)"
  shows "invariant (v1\<lparr>items_m := (items_m v1)[size_m v := x]\<rparr>)"
    and "elems (v1\<lparr>items_m := (items_m v1)[size_m v := x]\<rparr>) = elems v @ [x]"
    and "size_m v1 = Suc (size_m v)"
    and "capacity_m v1 = (if size_m v < capacity_m v then capacity_m v
                          else max (Suc (size_m v)) (2 * capacity_m v))"
proof -
  have grown: "invariant v1" "size_m v1 = Suc (size_m v)"
    "elems v1 = elems v @ [Type_default env]"
    "capacity_m v1 = (if Suc (size_m v) \<le> capacity_m v then capacity_m v
                      else max (Suc (size_m v)) (2 * capacity_m v))"
    using Resize_grow [OF assms(1) _ assms(2)] by simp_all
  have len: "length (elems v) = size_m v"
    using assms(1) by (simp add: invariant_def elems_def)
  show "invariant (v1\<lparr>items_m := (items_m v1)[size_m v := x]\<rparr>)"
    using grown(1) by (simp add: invariant_def)
  show "size_m v1 = Suc (size_m v)"
    by (rule grown(2))
  show "capacity_m v1 = (if size_m v < capacity_m v then capacity_m v
                         else max (Suc (size_m v)) (2 * capacity_m v))"
    using grown(4) by (simp add: Suc_le_eq)
  have "elems (v1\<lparr>items_m := (items_m v1)[size_m v := x]\<rparr>) = (elems v1)[size_m v := x]"
    by (simp add: elems_def take_update_swap)
  also have "\<dots> = elems v @ [x]"
    by (metis len grown(3) list_update_length)
  finally show "elems (v1\<lparr>items_m := (items_m v1)[size_m v := x]\<rparr>) = elems v @ [x]" .
qed

lemma PushBack_step:
  assumes "invariant v" and "admissible env v a"
    and "size_m v < capacity_m v \<or> can_allocate env (max (Suc (size_m v)) (2 * capacity_m v))"
  shows "fst (PushBack env a v) = Inr ()"
    and "invariant (snd (PushBack env a v))"
    and "size_m (snd (PushBack env a v)) = Suc (size_m v)"
    and "elems (snd (PushBack env a v)) = elems v @ [passed_value v (arg_ref a)]"
    and "capacity_m (snd (PushBack env a v)) =
      (if size_m v < capacity_m v then capacity_m v
       else max (Suc (size_m v)) (2 * capacity_m v))"
proof -
  have "fst (Resize env (Suc (size_m v)) v) = Inr ()"
    using assms(3) by (intro Resize_returns [OF assms(1)]) auto
  then obtain v1 where resize: "Resize env (Suc (size_m v)) v = (Inr (), v1)"
    by (metis prod.collapse)
  note tail = push_tail [OF assms(1) resize]
  have grown: "invariant v1" "elems v1 = elems v @ [Type_default env]"
    using Resize_grow [OF assms(1) _ resize] by simp_all
  have len0: "length (elems v) = size_m v"
    using assms(1) by (simp add: invariant_def elems_def)
  have kept: "\<not> Resize_releases (Suc (size_m v)) v \<and> j < length (items_m v1)
      \<and> items_m v1 ! j = items_m v ! j"
    if "j < size_m v" and "size_m v < capacity_m v" for j
  proof -
    have "items_m v1 ! j = elems v1 ! j"
      using that(1) tail(3) by (simp add: elems_def)
    also have "\<dots> = elems v ! j"
      using that(1) len0 by (simp add: grown(2) nth_append)
    also have "\<dots> = items_m v ! j"
      using that(1) by (simp add: elems_def)
    finally have "items_m v1 ! j = items_m v ! j" .
    moreover have "j < length (items_m v1)"
      using that(1) tail(3) grown(1) by (simp add: invariant_def)
    moreover have "\<not> Resize_releases (Suc (size_m v)) v"
      using that(2) by (simp add: Resize_releases_def)
    ultimately show ?thesis
      by simp
  qed
  have "PushBack env a v
      = (Inr (), v1\<lparr>items_m := (items_m v1)[size_m v := passed_value v (arg_ref a)]\<rparr>)"
  proof (cases a)
    case (by_copy r)
    show ?thesis
    proof (cases r)
      case (outside x)
      then show ?thesis
        using assms(2) resize tail(3) by_copy
        by (simp add: PushBack_copy_def size_Suc [OF assms(1)])
    next
      case (slot j)
      then show ?thesis
        using assms(2) resize tail(3) by_copy kept [of j]
        by (simp add: PushBack_copy_def size_Suc [OF assms(1)])
    qed
  next
    case (by_move r)
    then obtain x where "r = outside x"
      using assms(2) by (cases r) simp_all
    then show ?thesis
      using resize tail(3) by_move
      by (simp add: PushBack_move_def size_Suc [OF assms(1)])
  qed
  then show "fst (PushBack env a v) = Inr ()"
    and "invariant (snd (PushBack env a v))"
    and "size_m (snd (PushBack env a v)) = Suc (size_m v)"
    and "elems (snd (PushBack env a v)) = elems v @ [passed_value v (arg_ref a)]"
    and "capacity_m (snd (PushBack env a v)) =
      (if size_m v < capacity_m v then capacity_m v
       else max (Suc (size_m v)) (2 * capacity_m v))"
    using tail(1) [of "passed_value v (arg_ref a)"] tail(2) [of "passed_value v (arg_ref a)"]
      tail(3,4)
    by simp_all
qed

lemma SimpleVector_default_invariant: "invariant SimpleVector_default"
  by (simp add: SimpleVector_default_def invariant_def)

lemma pushes_run:
  assumes "\<forall>n<length cs. admissible env (after_pushes env cs n) (cs ! n)"
    and "can_allocate env (2 * length cs)"
    and "n \<le> length cs"
  shows "fst (PushBack_all env (take n cs) SimpleVector_default) = Inr ()
    \<and> invariant (after_pushes env cs n)
    \<and> size_m (after_pushes env cs n) = n
    \<and> elems (after_pushes env cs n)
        = map (\<lambda>k. passed_value (after_pushes env cs k) (arg_ref (cs ! k))) [0..<n]"
  using assms(3)
proof (induction n)
  case 0
  then show ?case
    by (simp add: after_pushes_def SimpleVector_default_invariant)
       (simp add: SimpleVector_default_def elems_def)
next
  case (Suc n)
  let ?v = "after_pushes env cs n"
  have n: "n < length cs"
    using Suc.prems by simp
  have IH: "fst (PushBack_all env (take n cs) SimpleVector_default) = Inr ()"
    "invariant ?v" "size_m ?v = n"
    "elems ?v = map (\<lambda>k. passed_value (after_pushes env cs k) (arg_ref (cs ! k))) [0..<n]"
    using Suc.IH n by simp_all
  have run: "PushBack_all env (take n cs) SimpleVector_default = (Inr (), ?v)"
    using IH(1) by (simp add: after_pushes_def) (metis prod.collapse)
  have take: "take (Suc n) cs = take n cs @ [cs ! n]"
    using n by (rule take_Suc_conv_app_nth)
  have next_state: "PushBack_all env (take (Suc n) cs) SimpleVector_default = PushBack env (cs ! n) ?v"
    by (simp add: take PushBack_all_snoc run)
  have adm: "admissible env ?v (cs ! n)"
    using assms(1) n by simp
  have "n \<le> capacity_m ?v"
    using IH(2,3) by (simp add: invariant_def)
  then have room: "size_m ?v < capacity_m ?v
      \<or> can_allocate env (max (Suc (size_m ?v)) (2 * capacity_m ?v))"
    using n by (auto simp: IH(3) intro!: can_allocate_mono [OF assms(2)])
  note step = PushBack_step [OF IH(2) adm room]
  have after: "after_pushes env cs (Suc n) = snd (PushBack env (cs ! n) ?v)"
    by (simp add: after_pushes_def [of env cs "Suc n"] next_state)
  show ?case
    using step(1,2,3,4) by (simp add: next_state after IH(3,4))
qed

lemma pushes_capacity:
  assumes "\<forall>n<length cs. admissible env (after_pushes env cs n) (cs ! n)"
    and "can_allocate env (2 * length cs)"
    and "n < length cs"
  shows "capacity_m (after_pushes env cs (Suc n)) =
      (if n < capacity_m (after_pushes env cs n) then capacity_m (after_pushes env cs n)
       else max (Suc n) (2 * capacity_m (after_pushes env cs n)))"
    and "n \<le> capacity_m (after_pushes env cs n)"
proof -
  let ?v = "after_pushes env cs n"
  have state: "fst (PushBack_all env (take n cs) SimpleVector_default) = Inr ()"
    "invariant ?v" "size_m ?v = n"
    using pushes_run [OF assms(1,2), of n] assms(3) by simp_all
  have run: "PushBack_all env (take n cs) SimpleVector_default = (Inr (), ?v)"
    using state(1) by (simp add: after_pushes_def) (metis prod.collapse)
  have take: "take (Suc n) cs = take n cs @ [cs ! n]"
    using assms(3) by (rule take_Suc_conv_app_nth)
  have after: "after_pushes env cs (Suc n) = snd (PushBack env (cs ! n) ?v)"
    by (simp add: after_pushes_def [of env cs "Suc n"] take PushBack_all_snoc run)
  have adm: "admissible env ?v (cs ! n)"
    using assms(1,3) by simp
  show le: "n \<le> capacity_m ?v"
    using state(2,3) by (simp add: invariant_def)
  then have room: "size_m ?v < capacity_m ?v
      \<or> can_allocate env (max (Suc (size_m ?v)) (2 * capacity_m ?v))"
    using assms(3) by (auto simp: state(3) intro!: can_allocate_mono [OF assms(2)])
  show "capacity_m (after_pushes env cs (Suc n)) =
      (if n < capacity_m ?v then capacity_m ?v else max (Suc n) (2 * capacity_m ?v))"
    using PushBack_step(5) [OF state(2) adm room] by (simp add: after state(3))
qed

lemma doubling_trace:
  fixes c :: "nat \<Rightarrow> nat"
  assumes zero: "c 0 = 0"
    and step: "\<And>n. n < N \<Longrightarrow> c (Suc n) = (if n < c n then c n else max (Suc n) (2 * c n))"
    and room: "\<And>n. n < N \<Longrightarrow> n \<le> c n"
    and "k \<le> N"
  shows "\<exists>m. remdups_adj (map c [1..<Suc k]) = map (\<lambda>j. 2 ^ j) [0..<m]
    \<and> (0 < k \<longrightarrow> 0 < m \<and> c k = 2 ^ (m - 1))"
  using \<open>k \<le> N\<close>
proof (induction k)
  case 0
  show ?case
    by (rule exI [of _ 0]) simp
next
  case (Suc k)
  then have k: "k < N"
    by simp
  show ?case
  proof (cases "k = 0")
    case True
    have "c (Suc 0) = 1"
      using step [of 0] k True zero by simp
    then show ?thesis
      using True by (intro exI [of _ 1]) simp
  next
    case False
    then obtain m where
      trace: "remdups_adj (map c [1..<Suc k]) = map (\<lambda>j. 2 ^ j) [0..<m]" and
      m: "0 < m" and ck: "c k = 2 ^ (m - 1)"
      using Suc.IH k by auto
    have split: "map c [1..<Suc (Suc k)] = map c [1..<k] @ [c k, c (Suc k)]"
      using False by simp
    have split': "map c [1..<Suc k] = map c [1..<k] @ [c k]"
      using False by simp
    show ?thesis
    proof (cases "k < c k")
      case True
      then have "c (Suc k) = c k"
        using step [OF k] by simp
      then have "remdups_adj (map c [1..<Suc (Suc k)]) = map (\<lambda>j. 2 ^ j) [0..<m]"
        unfolding split using trace split' by (simp add: remdups_adj_append_two)
      then show ?thesis
        using m ck \<open>c (Suc k) = c k\<close> by (intro exI [of _ m]) simp
    next
      case full: False
      then have "c k = k"
        using room [OF k] by simp
      then have next_c: "c (Suc k) = 2 * c k"
        using step [OF k] False by simp
      also have "\<dots> = 2 ^ m"
        using m by (simp add: ck flip: power_Suc) 
      finally have pow: "c (Suc k) = 2 ^ m" .
      have "c k \<noteq> c (Suc k)"
        using next_c \<open>c k = k\<close> False by simp
      then have "remdups_adj (map c [1..<Suc (Suc k)]) = map (\<lambda>j. 2 ^ j) [0..<m] @ [2 ^ m]"
        unfolding split using trace split' pow by (simp add: remdups_adj_append_two)
      then show ?thesis
        using pow by (intro exI [of _ "Suc m"]) simp
    qed
  qed
qed

subsection \<open>Comparison and construction from a list\<close>

lemma std_equal_iff: "std_equal xs ys \<longleftrightarrow> xs = ys"
  by (induction xs ys rule: std_equal.induct) auto

lemma lexicographical_compare_lexord:
  fixes xs ys :: "('a::linorder) list"
  shows "lexicographical_compare xs ys \<longleftrightarrow> (xs, ys) \<in> lexord {(x, y). x < y}"
proof (induction xs ys rule: lexicographical_compare.induct)
  case (1 x xs y ys)
  then show ?case
    by (auto simp: not_less_iff_gr_or_eq)
qed (simp_all add: neq_Nil_conv)

lemma lexicographical_compare_iff:
  fixes xs ys :: "('a::linorder) list"
  shows "lexicographical_compare xs ys \<longleftrightarrow>
    (\<exists>x zs. ys = xs @ x # zs)
    \<or> (\<exists>us x y vs ws. x < y \<and> xs = us @ x # vs \<and> ys = us @ y # ws)"
  unfolding lexicographical_compare_lexord lexord_def by auto

lemma SimpleVector_init_result:
  assumes "SimpleVector_init env init = Inr v"
  shows "elems v = init" and "invariant v" and "size_m v = length init"
    and "capacity_m v = length init"
proof -
  from assms obtain buf buf' where
    alloc: "ArrayPtr_new env (length init) = Inr buf" and
    copy: "copy_move_a env False init buf 0 = (Inr (), buf')" and
    v: "v = \<lparr>items_m = buf', size_m = length init, capacity_m = length init\<rparr>"
    by (auto simp: SimpleVector_init_def split: sum.splits prod.splits)
  have len: "length buf = length init" "length init \<le> PTRDIFF_MAX"
    using ArrayPtr_new_Inr [OF alloc] by simp_all
  have "\<forall>x\<in>set init. \<not> assign_throws env False x"
    by (rule copy_move_a_Inr [OF copy])
  then have "copy_move_a env False init buf 0 = (Inr (), init)"
    using copy_move_a_ok [of init env False 0 buf] len(1) by simp
  then have buf': "buf' = init"
    using copy by simp
  show "elems v = init" and "invariant v" and "size_m v = length init"
    and "capacity_m v = length init"
    using len(2) by (simp_all add: v buf' elems_def invariant_def)
qed

subsection \<open>Copy assignment\<close>

lemma copy_assign_returns:
  assumes "this \<noteq> rhs" and "invariant (h rhs)" and "can_allocate env (capacity_m (h rhs))"
    and "\<forall>x\<in>set (elems (h rhs)). \<not> copy_throws env x"
  shows "fst (copy_assign env h this rhs) = Inr ()"
    and "elems (snd (copy_assign env h this rhs) this) = elems (h rhs)"
    and "size_m (snd (copy_assign env h this rhs) this) = size_m (h rhs)"
    and "capacity_m (snd (copy_assign env h this rhs) this) = capacity_m (h rhs)"
    and "snd (copy_assign env h this rhs) rhs = h rhs"
proof -
  let ?new = "map (uninit env) [0..<capacity_m (h rhs)]"
  have len: "length (elems (h rhs)) = size_m (h rhs)" "size_m (h rhs) \<le> capacity_m (h rhs)"
    using assms(2) by (simp_all add: invariant_def elems_def)
  have copied: "copy_move_a env False (elems (h rhs)) ?new 0
      = (Inr (), elems (h rhs) @ drop (size_m (h rhs)) ?new)"
    using copy_move_a_ok [of "elems (h rhs)" env False 0 ?new] len assms(4)
    by (simp add: assign_throws_def)
  have result: "copy_assign env h this rhs =
      (Inr (), h(this := (h this)\<lparr>items_m := elems (h rhs) @ drop (size_m (h rhs)) ?new,
                                   size_m := size_m (h rhs),
                                   capacity_m := capacity_m (h rhs)\<rparr>))"
    using assms(1)
    by (simp add: copy_assign_def ArrayPtr_new_ok [OF assms(3)] ArrayPtr_swap_def copied)
  show "fst (copy_assign env h this rhs) = Inr ()"
    and "elems (snd (copy_assign env h this rhs) this) = elems (h rhs)"
    and "size_m (snd (copy_assign env h this rhs) this) = size_m (h rhs)"
    and "capacity_m (snd (copy_assign env h this rhs) this) = capacity_m (h rhs)"
    and "snd (copy_assign env h this rhs) rhs = h rhs"
    using assms(1) len by (simp_all add: result elems_def)
qed

lemma copy_assign_bad_alloc:
  assumes "this \<noteq> rhs" and "0 < capacity_m (h rhs)"
    and "\<not> can_allocate env (capacity_m (h rhs))"
  shows "copy_assign env h this rhs = (Inl bad_alloc, h)"
  using assms by (simp add: copy_assign_def ArrayPtr_new_def)

section \<open>The container's specification, claim by claim\<close>

text \<open>
  Each claim of the specification is stated on the embedding above. A vector is any state
  that satisfies the class invariant; an index or a position is a natural number.
\<close>

subsection \<open>Claim C1\<close>

text \<open>
  C1: copy assignment is not atomic when an element copy throws. \<open>operator=\<close> swaps the new
  buffer into the target before it copies, so a copy that throws leaves the target with
  the new buffer: its old elements are gone, the elements copied so far stand in their
  place, and \<open>size_\<close> and \<open>capacity_\<close> are still the old ones, so that even the class
  invariant is lost. Here the target holds \<open>{1, 2}\<close>, the source holds \<open>{3, 4, 5}\<close> in four
  slots, and copying the value \<open>4\<close> throws. \<open>Reserve\<close> and \<open>Resize\<close> fill the new buffer first
  and swap afterwards (lemma \<open>Reserve_failure\<close>); when nothing throws, the assignment does
  copy the elements (lemma \<open>copy_assign_returns\<close>), and a failed allocation leaves the
  target alone (lemma \<open>copy_assign_bad_alloc\<close>).
\<close>

theorem copy_assign_throw_modifies_target:
  "store2 0 = \<lparr>items_m = [1, 2], size_m = 2, capacity_m = 2\<rparr>
   \<and> elems (store2 1) = [3, 4, 5]
   \<and> fst (copy_assign fragile_env store2 0 1) = Inl copy_exception
   \<and> snd (copy_assign fragile_env store2 0 1) 0
       = \<lparr>items_m = [3, 0, 0, 0], size_m = 2, capacity_m = 2\<rparr>
   \<and> elems (snd (copy_assign fragile_env store2 0 1) 0) \<noteq> elems (store2 0)
   \<and> invariant (store2 0)
   \<and> \<not> invariant (snd (copy_assign fragile_env store2 0 1) 0)"
  by (simp add: store2_def fragile_env_def copy_assign_def elems_def ArrayPtr_new_def
      can_allocate_def PTRDIFF_MAX_def ArrayPtr_swap_def assign_throws_def upt_rec
      invariant_def)

subsection \<open>Claim C2\<close>

text \<open>
  C2: the three cases of \<open>Resize\<close>. With \<open>new_size <= size\<close> only the size changes, so the
  elements below \<open>new_size\<close> stay. With \<open>size < new_size <= capacity\<close> the size becomes
  \<open>new_size\<close>, the capacity stays, and the elements are the old ones followed by
  \<open>new_size - size\<close> copies of \<open>Type()\<close>. With \<open>new_size > capacity\<close> the same holds for the
  elements and the size, in a new buffer of \<open>max(new_size, 2 * capacity)\<close> slots, which is
  the new capacity; if the free store cannot hand out that block, \<open>std::bad_alloc\<close> leaves
  the call and the vector is as before.
\<close>

theorem Resize_three_cases:
  assumes "invariant v"
  shows
    "(new_size \<le> GetSize v \<longrightarrow>
        Resize env new_size v = (Inr (), v\<lparr>size_m := new_size\<rparr>)
        \<and> elems (snd (Resize env new_size v)) = take new_size (elems v))
     \<and> (GetSize v < new_size \<and> new_size \<le> GetCapacity v \<longrightarrow>
        fst (Resize env new_size v) = Inr ()
        \<and> GetSize (snd (Resize env new_size v)) = new_size
        \<and> GetCapacity (snd (Resize env new_size v)) = GetCapacity v
        \<and> elems (snd (Resize env new_size v))
           = elems v @ replicate (new_size - GetSize v) (Type_default env))
     \<and> (GetCapacity v < new_size \<and> can_allocate env (max new_size (2 * GetCapacity v)) \<longrightarrow>
        fst (Resize env new_size v) = Inr ()
        \<and> GetSize (snd (Resize env new_size v)) = new_size
        \<and> GetCapacity (snd (Resize env new_size v)) = max new_size (2 * GetCapacity v)
        \<and> length (items_m (snd (Resize env new_size v))) = max new_size (2 * GetCapacity v)
        \<and> elems (snd (Resize env new_size v))
           = elems v @ replicate (new_size - GetSize v) (Type_default env))
     \<and> (GetCapacity v < new_size \<and> \<not> can_allocate env (max new_size (2 * GetCapacity v)) \<longrightarrow>
        Resize env new_size v = (Inl bad_alloc, v))"
proof -
  have shrink: "Resize env new_size v = (Inr (), v\<lparr>size_m := new_size\<rparr>)
      \<and> elems (snd (Resize env new_size v)) = take new_size (elems v)"
    if "new_size \<le> GetSize v"
    using that by (simp add: Resize_shrink GetSize_def elems_def min_def)
  have grow: "fst (Resize env new_size v) = Inr ()
      \<and> GetSize (snd (Resize env new_size v)) = new_size
      \<and> GetCapacity (snd (Resize env new_size v))
         = (if new_size \<le> capacity_m v then capacity_m v else max new_size (2 * capacity_m v))
      \<and> length (items_m (snd (Resize env new_size v)))
         = GetCapacity (snd (Resize env new_size v))
      \<and> elems (snd (Resize env new_size v))
         = elems v @ replicate (new_size - GetSize v) (Type_default env)"
    if "GetSize v < new_size"
      and "new_size \<le> capacity_m v \<or> can_allocate env (max new_size (2 * capacity_m v))"
  proof -
    have ret: "fst (Resize env new_size v) = Inr ()"
      using Resize_returns [OF assms that(2)] .
    then have eq: "Resize env new_size v = (Inr (), snd (Resize env new_size v))"
      by (metis prod.collapse)
    have "size_m v \<le> new_size"
      using that(1) by (simp add: GetSize_def)
    from Resize_grow [OF assms this eq] ret show ?thesis
      by (simp add: GetSize_def GetCapacity_def invariant_def)
  qed
  have fail: "Resize env new_size v = (Inl bad_alloc, v)"
    if "GetCapacity v < new_size" and "\<not> can_allocate env (max new_size (2 * GetCapacity v))"
    using that Resize_bad_alloc [OF assms, of new_size env] by (simp add: GetCapacity_def)
  have c1: "new_size \<le> GetSize v \<longrightarrow>
        Resize env new_size v = (Inr (), v\<lparr>size_m := new_size\<rparr>)
        \<and> elems (snd (Resize env new_size v)) = take new_size (elems v)"
    using shrink by blast
  have c2: "GetSize v < new_size \<and> new_size \<le> GetCapacity v \<longrightarrow>
        fst (Resize env new_size v) = Inr ()
        \<and> GetSize (snd (Resize env new_size v)) = new_size
        \<and> GetCapacity (snd (Resize env new_size v)) = GetCapacity v
        \<and> elems (snd (Resize env new_size v))
           = elems v @ replicate (new_size - GetSize v) (Type_default env)"
    using grow by (simp add: GetCapacity_def)
  have "GetSize v \<le> GetCapacity v"
    using assms by (simp add: invariant_def GetSize_def GetCapacity_def)
  then have c3: "GetCapacity v < new_size \<and> can_allocate env (max new_size (2 * GetCapacity v)) \<longrightarrow>
        fst (Resize env new_size v) = Inr ()
        \<and> GetSize (snd (Resize env new_size v)) = new_size
        \<and> GetCapacity (snd (Resize env new_size v)) = max new_size (2 * GetCapacity v)
        \<and> length (items_m (snd (Resize env new_size v))) = max new_size (2 * GetCapacity v)
        \<and> elems (snd (Resize env new_size v))
           = elems v @ replicate (new_size - GetSize v) (Type_default env)"
    using grow by (simp add: GetCapacity_def)
  have c4: "GetCapacity v < new_size \<and> \<not> can_allocate env (max new_size (2 * GetCapacity v)) \<longrightarrow>
        Resize env new_size v = (Inl bad_alloc, v)"
    using fail by blast
  show ?thesis
    using c1 c2 c3 c4 by blast
qed

theorem Resize_three_cases_witness:
  "invariant vec3
   \<and> 2 \<le> GetSize vec3
   \<and> Resize int_env 2 vec3 = (Inr (), \<lparr>items_m = [10, 20, 30, - 1], size_m = 2, capacity_m = 4\<rparr>)
   \<and> elems (snd (Resize int_env 2 vec3)) = [10, 20]
   \<and> GetSize vec3 < 4 \<and> 4 \<le> GetCapacity vec3
   \<and> fst (Resize int_env 4 vec3) = Inr ()
   \<and> GetCapacity (snd (Resize int_env 4 vec3)) = 4
   \<and> elems (snd (Resize int_env 4 vec3)) = [10, 20, 30, 0]
   \<and> GetCapacity vec3 < 6 \<and> can_allocate int_env (max 6 (2 * GetCapacity vec3))
   \<and> fst (Resize int_env 6 vec3) = Inr ()
   \<and> GetCapacity (snd (Resize int_env 6 vec3)) = 8
   \<and> length (items_m (snd (Resize int_env 6 vec3))) = 8
   \<and> elems (snd (Resize int_env 6 vec3)) = [10, 20, 30, 0, 0, 0]
   \<and> \<not> can_allocate int_env (max 2000 (2 * GetCapacity vec3))
   \<and> Resize int_env 2000 vec3 = (Inl bad_alloc, vec3)"
proof -
  have inv: "invariant vec3"
    by (simp add: vec3_def invariant_def PTRDIFF_MAX_def)
  have facts: "GetSize vec3 = 3" "GetCapacity vec3 = 4" "elems vec3 = [10, 20, 30]"
    "Type_default int_env = 0" "can_allocate int_env 8" "\<not> can_allocate int_env 2000"
    "vec3\<lparr>size_m := 2\<rparr> = \<lparr>items_m = [10, 20, 30, - 1], size_m = 2, capacity_m = 4\<rparr>"
    by (simp_all add: vec3_def int_env_def GetSize_def GetCapacity_def elems_def
        can_allocate_def PTRDIFF_MAX_def)
  have fills: "replicate (4 - 3) (0::int) = [0]" "replicate (6 - 3) (0::int) = [0, 0, 0]"
    "take 2 [10, 20, 30::int] = [10, 20]" "replicate 3 (0::int) = [0, 0, 0]"
    "elems \<lparr>items_m = [10, 20, 30, - 1 :: int], size_m = 2, capacity_m = 4\<rparr> = [10, 20]"
    by (simp_all add: numeral_eq_Suc elems_def)
  show ?thesis
    using Resize_three_cases [OF inv, of 2 int_env] Resize_three_cases [OF inv, of 4 int_env]
      Resize_three_cases [OF inv, of 6 int_env] Resize_three_cases [OF inv, of 2000 int_env]
      inv
    by (simp add: facts fills)
qed

subsection \<open>Claim C3\<close>

text \<open>
  C3, for arguments that are still there when \<open>PushBack\<close> reads them. Take a sequence of
  \<open>N\<close> calls of \<open>PushBack\<close> on a default-constructed vector in which every argument is an
  object outside the vector or, for the copy overload, an element of the vector passed
  while \<open>Size() < Capacity()\<close>; no copy throws, and the free store hands out \<open>2 * N\<close> slots.
  Then every call returns; after the first \<open>n\<close> calls \<open>Size()\<close> is \<open>n\<close>; at the end the
  element at index \<open>i\<close> is the value the argument of call \<open>i + 1\<close> had when it was passed; the
  capacity never decreases from one call to the next; and the capacities after calls
  \<open>1, ..., N\<close>, with adjacent repetitions dropped, are \<open>1, 2, 4, ...\<close>, the powers of two in
  order.
\<close>

theorem PushBack_sequence:
  assumes "\<forall>n<length cs. admissible env (after_pushes env cs n) (cs ! n)"
    and "can_allocate env (2 * length cs)"
  shows
    "fst (PushBack_all env cs SimpleVector_default) = Inr ()
     \<and> (\<forall>n\<le>length cs. GetSize (after_pushes env cs n) = n)
     \<and> (\<forall>i<length cs. fst (At (after_pushes env cs (length cs)) i)
            = Inr (passed_value (after_pushes env cs i) (arg_ref (cs ! i))))
     \<and> (\<forall>n<length cs. GetCapacity (after_pushes env cs n)
                          \<le> GetCapacity (after_pushes env cs (Suc n)))
     \<and> (\<exists>m. remdups_adj (map (\<lambda>n. GetCapacity (after_pushes env cs n)) [1..<Suc (length cs)])
              = map (\<lambda>j. 2 ^ j) [0..<m])"
proof -
  note run = pushes_run [OF assms]
  note cap = pushes_capacity [OF assms]
  have returns: "fst (PushBack_all env cs SimpleVector_default) = Inr ()"
    using run [of "length cs"] by simp
  have sizes: "\<forall>n\<le>length cs. GetSize (after_pushes env cs n) = n"
    using run by (simp add: GetSize_def)
  have order: "\<forall>i<length cs. fst (At (after_pushes env cs (length cs)) i)
      = Inr (passed_value (after_pushes env cs i) (arg_ref (cs ! i)))"
  proof (intro allI impI)
    fix i
    assume i: "i < length cs"
    let ?v = "after_pushes env cs (length cs)"
    have v: "size_m ?v = length cs"
      "elems ?v = map (\<lambda>k. passed_value (after_pushes env cs k) (arg_ref (cs ! k))) [0..<length cs]"
      using run [of "length cs"] by simp_all
    have "fst (At ?v i) = Inr (items_m ?v ! i)"
      using i v(1) by (simp add: At_def)
    also have "items_m ?v ! i = elems ?v ! i"
      using i v(1) by (simp add: elems_def)
    finally show "fst (At ?v i) = Inr (passed_value (after_pushes env cs i) (arg_ref (cs ! i)))"
      using i by (simp add: v(2))
  qed
  have grows: "\<forall>n<length cs. GetCapacity (after_pushes env cs n)
      \<le> GetCapacity (after_pushes env cs (Suc n))"
  proof (intro allI impI)
    fix n
    assume "n < length cs"
    from cap(1) [OF this]
    show "GetCapacity (after_pushes env cs n) \<le> GetCapacity (after_pushes env cs (Suc n))"
      by (simp add: GetCapacity_def le_max_iff_disj)
  qed
  have "after_pushes env cs 0 = SimpleVector_default"
    by (simp add: after_pushes_def)
  then have zero: "GetCapacity (after_pushes env cs 0) = 0"
    by (simp add: GetCapacity_def SimpleVector_default_def)
  define c where "c = (\<lambda>n. GetCapacity (after_pushes env cs n))"
  have c0: "c 0 = 0"
    using zero by (simp add: c_def)
  have c_step: "c (Suc n) = (if n < c n then c n else max (Suc n) (2 * c n))"
    if "n < length cs" for n
    using cap(1) [OF that] by (simp add: c_def GetCapacity_def)
  have c_room: "n \<le> c n" if "n < length cs" for n
    using cap(2) [OF that] by (simp add: c_def GetCapacity_def)
  from doubling_trace [of c "length cs" "length cs", OF c0 c_step c_room order_refl]
  obtain m where "remdups_adj (map c [1..<Suc (length cs)]) = map (\<lambda>j. 2 ^ j) [0..<m]"
    by blast
  then have doubling: "\<exists>m. remdups_adj (map (\<lambda>n. GetCapacity (after_pushes env cs n))
      [1..<Suc (length cs)]) = map (\<lambda>j. 2 ^ j) [0..<m]"
    unfolding c_def by (rule exI)
  show ?thesis
    using returns sizes order grows doubling by blast
qed

theorem PushBack_sequence_witness:
  "admissible int_env (after_pushes int_env calls5 0) (calls5 ! 0)
   \<and> admissible int_env (after_pushes int_env calls5 1) (calls5 ! 1)
   \<and> admissible int_env (after_pushes int_env calls5 2) (calls5 ! 2)
   \<and> admissible int_env (after_pushes int_env calls5 3) (calls5 ! 3)
   \<and> admissible int_env (after_pushes int_env calls5 4) (calls5 ! 4)
   \<and> can_allocate int_env (2 * length calls5)
   \<and> PushBack_all int_env calls5 SimpleVector_default
       = (Inr (), \<lparr>items_m = [1, 2, 3, 1, 5, - 1, - 1, - 1], size_m = 5, capacity_m = 8\<rparr>)
   \<and> GetSize (after_pushes int_env calls5 5) = 5
   \<and> fst (At (after_pushes int_env calls5 5) 2) = Inr 3
   \<and> fst (At (after_pushes int_env calls5 5) 3) = Inr 1
   \<and> GetCapacity (after_pushes int_env calls5 3) \<le> GetCapacity (after_pushes int_env calls5 4)
   \<and> map (\<lambda>n. GetCapacity (after_pushes int_env calls5 n)) [1, 2, 3, 4, 5] = [1, 2, 4, 4, 8]
   \<and> remdups_adj [1, 2, 4, 4, 8 :: nat] = map (\<lambda>j. 2 ^ j) [0, 1, 2, 3]"
proof -
  note defs = after_pushes_def calls5_def PushBack_copy_def PushBack_move_def
    Resize_def Resize_releases_def int_env_def SimpleVector_default_def size_t_def
    size_t_minus_def SIZE_MAX_def ArrayPtr_new_def can_allocate_def PTRDIFF_MAX_def elems_def
    ArrayPtr_swap_def fill_default.simps assign_throws_def upt_rec
  have states:
    "after_pushes int_env calls5 0 = \<lparr>items_m = [], size_m = 0, capacity_m = 0\<rparr>"
    "after_pushes int_env calls5 1 = \<lparr>items_m = [1], size_m = 1, capacity_m = 1\<rparr>"
    "after_pushes int_env calls5 2 = \<lparr>items_m = [1, 2], size_m = 2, capacity_m = 2\<rparr>"
    "after_pushes int_env calls5 3 = \<lparr>items_m = [1, 2, 3, - 1], size_m = 3, capacity_m = 4\<rparr>"
    "after_pushes int_env calls5 4 = \<lparr>items_m = [1, 2, 3, 1], size_m = 4, capacity_m = 4\<rparr>"
    "after_pushes int_env calls5 5
      = \<lparr>items_m = [1, 2, 3, 1, 5, - 1, - 1, - 1], size_m = 5, capacity_m = 8\<rparr>"
    by (simp_all add: defs)
  have calls: "calls5 ! 0 = by_copy (outside 1)" "calls5 ! 1 = by_move (outside 2)"
    "calls5 ! 2 = by_copy (outside 3)" "calls5 ! 3 = by_copy (slot 0)"
    "calls5 ! 4 = by_move (outside 5)" "length calls5 = 5"
    by (simp_all add: calls5_def)
  have nothrow: "\<And>x. \<not> copy_throws int_env x"
    by (simp add: int_env_def)
  have adm: "admissible int_env (after_pushes int_env calls5 0) (calls5 ! 0)"
    "admissible int_env (after_pushes int_env calls5 1) (calls5 ! 1)"
    "admissible int_env (after_pushes int_env calls5 2) (calls5 ! 2)"
    "admissible int_env (after_pushes int_env calls5 3) (calls5 ! 3)"
    "admissible int_env (after_pushes int_env calls5 4) (calls5 ! 4)"
    unfolding states calls by (simp_all add: nothrow)
  have all_adm: "\<forall>n<length calls5. admissible int_env (after_pushes int_env calls5 n) (calls5 ! n)"
  proof (intro allI impI)
    fix n
    assume "n < length calls5"
    then consider "n = 0" | "n = 1" | "n = 2" | "n = 3" | "n = 4"
      unfolding calls(6) by linarith
    then show "admissible int_env (after_pushes int_env calls5 n) (calls5 ! n)"
      using adm by cases (simp_all only:)
  qed
  have alloc: "can_allocate int_env (2 * length calls5)"
    by (simp add: calls(6) int_env_def can_allocate_def PTRDIFF_MAX_def)
  have run: "PushBack_all int_env calls5 SimpleVector_default
      = (Inr (), \<lparr>items_m = [1, 2, 3, 1, 5, - 1, - 1, - 1], size_m = 5, capacity_m = 8\<rparr>)"
    by (simp add: defs)
  have caps: "map (\<lambda>n. GetCapacity (after_pushes int_env calls5 n)) [1, 2, 3, 4, 5]
      = [1, 2, 4, 4, 8]"
    using states(2) by (simp add: GetCapacity_def states)
  have passed: "passed_value (after_pushes int_env calls5 2) (arg_ref (calls5 ! 2)) = 3"
    "passed_value (after_pushes int_env calls5 3) (arg_ref (calls5 ! 3)) = 1"
    unfolding states calls by simp_all
  note sequence = PushBack_sequence [OF all_adm alloc]
  from sequence
  have "GetSize (after_pushes int_env calls5 5) = 5"
    and "fst (At (after_pushes int_env calls5 5) 2) = Inr 3"
    and "fst (At (after_pushes int_env calls5 5) 3) = Inr 1"
    by (simp_all add: calls(6) flip: passed)
  moreover from sequence
  have "\<forall>n<length calls5. GetCapacity (after_pushes int_env calls5 n)
      \<le> GetCapacity (after_pushes int_env calls5 (Suc n))"
    by blast
  from this [rule_format, of 3]
  have "GetCapacity (after_pushes int_env calls5 3) \<le> GetCapacity (after_pushes int_env calls5 4)"
    by (simp add: calls(6))
  ultimately show ?thesis
    using adm alloc run caps by (simp add: numeral_eq_Suc)
qed

text \<open>
  C3 as it is stated, for every sequence of calls, does not hold: in
  \<open>v.PushBack(1); v.PushBack(v[0]);\<close> the second call finds \<open>Size() == Capacity() == 1\<close>,
  \<open>Resize(2)\<close> moves the element to a new block and releases the old one, and line 165 then
  reads \<open>item\<close>, a reference into the released block. Copying \<open>1\<close> does not throw and the
  free store has the memory, so nothing but the dangling reference stands in the way.
\<close>

theorem PushBack_aliased_argument_dangles:
  "after_pushes int_env calls_aliased 1 = \<lparr>items_m = [1], size_m = 1, capacity_m = 1\<rparr>
   \<and> calls_aliased ! 1 = by_copy (slot 0)
   \<and> passed_value (after_pushes int_env calls_aliased 1) (slot 0) = 1
   \<and> \<not> copy_throws int_env 1
   \<and> can_allocate int_env (2 * length calls_aliased)
   \<and> Resize_releases 2 (after_pushes int_env calls_aliased 1)
   \<and> fst (PushBack_all int_env calls_aliased SimpleVector_default) = Inl dangling_reference"
  by (simp add: after_pushes_def calls_aliased_def PushBack_copy_def
      Resize_def Resize_releases_def int_env_def SimpleVector_default_def size_t_def
      size_t_minus_def SIZE_MAX_def ArrayPtr_new_def can_allocate_def PTRDIFF_MAX_def elems_def
      ArrayPtr_swap_def fill_default.simps assign_throws_def upt_rec)

subsection \<open>Claim C4\<close>

text \<open>
  C4: the move constructor and the move assignment into a distinct target leave the source
  with \<open>Size() == 0\<close> and \<open>Capacity() == 0\<close>, and the destination holds the element sequence
  the source held before.
\<close>

theorem move_empties_source:
  "GetSize (snd (SimpleVector_move v)) = 0
   \<and> GetCapacity (snd (SimpleVector_move v)) = 0
   \<and> IsEmpty (snd (SimpleVector_move v))
   \<and> elems (fst (SimpleVector_move v)) = elems v
   \<and> GetSize (fst (SimpleVector_move v)) = GetSize v
   \<and> GetCapacity (fst (SimpleVector_move v)) = GetCapacity v
   \<and> (this \<noteq> rhs \<longrightarrow>
        GetSize (move_assign h this rhs rhs) = 0
        \<and> GetCapacity (move_assign h this rhs rhs) = 0
        \<and> IsEmpty (move_assign h this rhs rhs)
        \<and> elems (move_assign h this rhs this) = elems (h rhs)
        \<and> GetSize (move_assign h this rhs this) = GetSize (h rhs)
        \<and> GetCapacity (move_assign h this rhs this) = GetCapacity (h rhs))"
  by (simp add: SimpleVector_move_def move_assign_def ArrayPtr_move_def GetSize_def
      GetCapacity_def IsEmpty_def elems_def)

theorem move_empties_source_witness:
  "(0::nat) \<noteq> 1
   \<and> GetSize (move_assign store2 0 1 1) = 0
   \<and> GetCapacity (move_assign store2 0 1 1) = 0
   \<and> elems (move_assign store2 0 1 0) = [3, 4, 5]
   \<and> elems (fst (SimpleVector_move vec3)) = [10, 20, 30]
   \<and> GetCapacity (snd (SimpleVector_move vec3)) = 0"
  using move_empties_source [of vec3 0 1 store2]
  by (simp add: store2_def vec3_def elems_def)

subsection \<open>Claim C5\<close>

text \<open>
  C5: \<open>At(i)\<close> throws \<open>std::out_of_range\<close>, with the message \<open>Index is out of range\<close>, if and
  only if \<open>i >= Size()\<close>; the vector is the same after the call, whether it throws or not;
  and for \<open>i < Size()\<close> it yields slot \<open>i\<close> of the buffer, which is element \<open>i\<close> of the
  logical sequence, exactly as \<open>operator[]\<close> does.
\<close>

theorem At_checked_access:
  "((\<exists>e. fst (At v i) = Inl e) \<longleftrightarrow> i \<ge> GetSize v)
   \<and> (i \<ge> GetSize v \<longrightarrow> fst (At v i) = Inl (out_of_range ''Index is out of range''))
   \<and> snd (At v i) = v
   \<and> (i < GetSize v \<longrightarrow> fst (At v i) = Inr (items_m v ! i) \<and> At v i = subscript v i)
   \<and> (i < GetSize v \<and> invariant v \<longrightarrow> fst (At v i) = Inr (elems v ! i))"
  by (auto simp: At_def subscript_def GetSize_def elems_def invariant_def)

theorem At_checked_access_witness:
  "fst (At vec3 3) = Inl (out_of_range ''Index is out of range'')
   \<and> snd (At vec3 3) = vec3
   \<and> 1 < GetSize vec3
   \<and> invariant vec3
   \<and> fst (At vec3 1) = Inr 20
   \<and> At vec3 1 = subscript vec3 1"
  using At_checked_access [of vec3 3] At_checked_access [of vec3 1]
  by (simp add: vec3_def GetSize_def invariant_def PTRDIFF_MAX_def elems_def At_def subscript_def)

subsection \<open>Claim C6\<close>

text \<open>
  C6, for arguments that are still there when \<open>Insert\<close> reads them. On a vector and a
  position \<open>i\<close> with \<open>i <= Size()\<close>: whenever the copy overload returns, whatever its
  argument refers to, and whenever the move overload returns for an object outside the
  vector, \<open>Insert\<close> returns position \<open>i\<close>, and \<open>Erase\<close> at that position then returns and
  leaves the element sequence the vector had before the \<open>Insert\<close>. For an object outside
  the vector the move overload returns whenever the vector has a free slot or the free
  store hands out the larger block, and the copy overload if, in addition, copying the
  value and the elements from \<open>i\<close> on does not throw. For an element of the vector itself
  the copy overload returns when \<open>Size() < Capacity()\<close> and no element copy throws.
\<close>

theorem Insert_then_Erase:
  assumes "invariant v" and "i \<le> GetSize v"
  shows
    "(\<forall>r p v1. Insert_copy env i r v = (Inr p, v1) \<longrightarrow>
        p = i \<and> fst (Erase env p v1) = Inr i \<and> elems (snd (Erase env p v1)) = elems v)
     \<and> (\<forall>p v1. Insert_move env i (outside x) v = (Inr p, v1) \<longrightarrow>
        p = i \<and> fst (Erase env p v1) = Inr i \<and> elems (snd (Erase env p v1)) = elems v)
     \<and> (GetSize v < GetCapacity v \<or> can_allocate env (max (GetSize v + 1) (2 * GetCapacity v)) \<longrightarrow>
        fst (Insert_move env i (outside x) v) = Inr i
        \<and> (\<not> copy_throws env x \<and> (\<forall>y\<in>set (drop i (elems v)). \<not> copy_throws env y) \<longrightarrow>
             fst (Insert_copy env i (outside x) v) = Inr i))
     \<and> (GetSize v < GetCapacity v \<and> j < GetSize v \<and> (\<forall>y\<in>set (elems v). \<not> copy_throws env y) \<longrightarrow>
        fst (Insert_copy env i (slot j) v) = Inr i)"
proof -
  have i: "i \<le> size_m v"
    using assms(2) by (simp add: GetSize_def)
  have copy: "p = i \<and> fst (Erase env p v1) = Inr i \<and> elems (snd (Erase env p v1)) = elems v"
    if "Insert_copy env i r v = (Inr p, v1)" for r p v1
  proof -
    from Insert_copy_result [OF assms(1) i that] obtain y where
      "p = i" "invariant v1" "size_m v1 = size_m v + 1"
      "elems v1 = take i (elems v) @ y # drop i (elems v)"
      by blast
    then show ?thesis
      using Erase_after_insert [OF assms(1) i, of v1 y env] by simp
  qed
  have move: "p = i \<and> fst (Erase env p v1) = Inr i \<and> elems (snd (Erase env p v1)) = elems v"
    if "Insert_move env i (outside x) v = (Inr p, v1)" for p v1
    using Insert_move_result [OF assms(1) i that] Erase_after_insert [OF assms(1) i, of v1 x env]
    by simp
  have returns: "fst (Insert_move env i (outside x) v) = Inr i
      \<and> (\<not> copy_throws env x \<and> (\<forall>y\<in>set (drop i (elems v)). \<not> copy_throws env y) \<longrightarrow>
           fst (Insert_copy env i (outside x) v) = Inr i)"
    if "GetSize v < GetCapacity v \<or> can_allocate env (max (GetSize v + 1) (2 * GetCapacity v))"
    using that Insert_move_returns [OF assms(1) i, of env x]
      Insert_copy_returns [OF assms(1) i, of env x]
    by (simp add: GetSize_def GetCapacity_def)
  have aliased: "fst (Insert_copy env i (slot j) v) = Inr i"
    if "GetSize v < GetCapacity v \<and> j < GetSize v \<and> (\<forall>y\<in>set (elems v). \<not> copy_throws env y)"
    using that Insert_copy_slot_returns [OF assms(1) i, of j env]
    by (simp add: GetSize_def GetCapacity_def)
  show ?thesis
    using copy move returns aliased by blast
qed

theorem Insert_then_Erase_witness:
  "invariant vec3 \<and> 1 \<le> GetSize vec3 \<and> GetSize vec3 < GetCapacity vec3
   \<and> Insert_move int_env 1 (outside 7) vec3
       = (Inr 1, \<lparr>items_m = [10, 7, 20, 30], size_m = 4, capacity_m = 4\<rparr>)
   \<and> Insert_copy int_env 1 (outside 7) vec3
       = (Inr 1, \<lparr>items_m = [10, 7, 20, 30], size_m = 4, capacity_m = 4\<rparr>)
   \<and> fst (Erase int_env 1 \<lparr>items_m = [10, 7, 20, 30], size_m = 4, capacity_m = 4\<rparr>) = Inr 1
   \<and> elems (snd (Erase int_env 1 \<lparr>items_m = [10, 7, 20, 30], size_m = 4, capacity_m = 4\<rparr>))
       = [10, 20, 30]
   \<and> Insert_copy int_env 0 (slot 1) vec3
       = (Inr 0, \<lparr>items_m = [10, 10, 20, 30], size_m = 4, capacity_m = 4\<rparr>)
   \<and> elems (snd (Erase int_env 0 \<lparr>items_m = [10, 10, 20, 30], size_m = 4, capacity_m = 4\<rparr>))
       = [10, 20, 30]"
proof -
  note defs = Insert_move_def Insert_copy_def Resize_def Resize_releases_def vec3_def
    int_env_def size_t_def size_t_minus_def SIZE_MAX_def fill_default.simps
    copy_move_backward_a.simps assign_throws_def left_behind_def
  have inv: "invariant vec3"
    by (simp add: vec3_def invariant_def PTRDIFF_MAX_def)
  have facts: "GetSize vec3 = 3" "GetCapacity vec3 = 4" "elems vec3 = [10, 20, 30]"
    by (simp_all add: vec3_def GetSize_def GetCapacity_def elems_def)
  have ins_move: "Insert_move int_env 1 (outside 7) vec3
      = (Inr 1, \<lparr>items_m = [10, 7, 20, 30], size_m = 4, capacity_m = 4\<rparr>)"
    by (simp add: defs)
  have ins_copy: "Insert_copy int_env 1 (outside 7) vec3
      = (Inr 1, \<lparr>items_m = [10, 7, 20, 30], size_m = 4, capacity_m = 4\<rparr>)"
    by (simp add: defs)
  have ins_slot: "Insert_copy int_env 0 (slot 1) vec3
      = (Inr 0, \<lparr>items_m = [10, 10, 20, 30], size_m = 4, capacity_m = 4\<rparr>)"
    by (simp add: defs)
  have le: "1 \<le> GetSize vec3" "0 \<le> GetSize vec3"
    by (simp_all add: facts)
  from Insert_then_Erase [OF inv le(1), of int_env 7] ins_move
  have "fst (Erase int_env 1 \<lparr>items_m = [10, 7, 20, 30], size_m = 4, capacity_m = 4\<rparr>) = Inr 1
      \<and> elems (snd (Erase int_env 1 \<lparr>items_m = [10, 7, 20, 30], size_m = 4, capacity_m = 4\<rparr>))
        = elems vec3"
    by blast
  moreover from Insert_then_Erase [OF inv le(2), of int_env] ins_slot
  have "elems (snd (Erase int_env 0 \<lparr>items_m = [10, 10, 20, 30], size_m = 4, capacity_m = 4\<rparr>))
      = elems vec3"
    by blast
  ultimately show ?thesis
    using inv ins_move ins_copy ins_slot by (simp add: facts)
qed

text \<open>
  C6 as it is stated, for every value, does not hold. In \<open>v.Insert(v.cbegin(), v[1])\<close> on a
  vector with \<open>Size() == Capacity() == 3\<close>, \<open>Resize(4)\<close> releases the block that \<open>value\<close>
  refers to, and line 180 (line 191 in the move overload) reads it afterwards: there is no
  defined result to erase from, although the free store has the memory and no copy throws.
  With a free slot, \<open>v.Insert(v.cbegin(), std::move(v[1]))\<close> on the elements
  \<open>{10, 20, 30}\<close> of a type whose moved-from state is \<open>0\<close> returns, but it has moved from
  the element that the shift brought to slot \<open>1\<close>: the elements are \<open>{10, 0, 20, 30}\<close>,
  and \<open>Erase\<close> at the same position leaves \<open>{0, 20, 30}\<close>.
\<close>

theorem Insert_aliased_argument_dangles:
  "invariant vec_full \<and> GetSize vec_full = 3 \<and> GetCapacity vec_full = 3
   \<and> can_allocate int_env (max (GetSize vec_full + 1) (2 * GetCapacity vec_full))
   \<and> Resize_releases 4 vec_full
   \<and> fst (Insert_copy int_env 0 (slot 1) vec_full) = Inl dangling_reference
   \<and> fst (Insert_move int_env 0 (slot 1) vec_full) = Inl dangling_reference
   \<and> invariant vec3 \<and> elems vec3 = [10, 20, 30]
   \<and> Insert_move fragile_env 0 (slot 1) vec3
       = (Inr 0, \<lparr>items_m = [10, 0, 20, 30], size_m = 4, capacity_m = 4\<rparr>)
   \<and> elems (snd (Erase fragile_env 0 \<lparr>items_m = [10, 0, 20, 30], size_m = 4, capacity_m = 4\<rparr>))
       = [0, 20, 30]"
  by (simp add: Insert_move_def Insert_copy_def Erase_def Resize_def Resize_releases_def
      vec3_def vec_full_def int_env_def fragile_env_def size_t_def size_t_minus_def SIZE_MAX_def
      fill_default.simps copy_move_backward_a.simps move_within.simps assign_throws_def
      left_behind_def invariant_def PTRDIFF_MAX_def GetSize_def GetCapacity_def elems_def
      ArrayPtr_new_def can_allocate_def ArrayPtr_swap_def upt_rec)

subsection \<open>Claim C7\<close>

text \<open>
  C7: copy assignment and move assignment of a vector to itself leave the vector, and every
  other object, as they were.
\<close>

theorem self_assignment_unchanged:
  "copy_assign env h a a = (Inr (), h) \<and> move_assign h a a = h"
  by (simp add: copy_assign_def move_assign_def)

subsection \<open>Claim C8\<close>

text \<open>
  C8: \<open>Reserve(n)\<close> with \<open>n <= Capacity()\<close> changes nothing. With \<open>n > Capacity()\<close>, a call
  that returns leaves \<open>Capacity() == n\<close> and the size and the elements as they were; it
  returns whenever the free store hands out the block and no element copy throws, and a
  call that throws leaves the vector as it was.
\<close>

theorem Reserve_frame:
  assumes "invariant v"
  shows
    "(n \<le> GetCapacity v \<longrightarrow> Reserve env n v = (Inr (), v))
     \<and> (GetCapacity v < n \<and> fst (Reserve env n v) = Inr () \<longrightarrow>
          GetCapacity (snd (Reserve env n v)) = n
          \<and> GetSize (snd (Reserve env n v)) = GetSize v
          \<and> elems (snd (Reserve env n v)) = elems v)
     \<and> (GetCapacity v < n \<and> can_allocate env n \<and> (\<forall>x\<in>set (elems v). \<not> copy_throws env x) \<longrightarrow>
          fst (Reserve env n v) = Inr ())
     \<and> (fst (Reserve env n v) \<noteq> Inr () \<longrightarrow> snd (Reserve env n v) = v)"
proof -
  have grow: "GetCapacity (snd (Reserve env n v)) = n
      \<and> GetSize (snd (Reserve env n v)) = GetSize v
      \<and> elems (snd (Reserve env n v)) = elems v"
    if "GetCapacity v < n" and "fst (Reserve env n v) = Inr ()"
  proof -
    have "Reserve env n v = (Inr (), snd (Reserve env n v))"
      using that(2) by (metis prod.collapse)
    from Reserve_grow [OF assms _ this] that(1) show ?thesis
      by (simp add: GetCapacity_def GetSize_def)
  qed
  have returns: "fst (Reserve env n v) = Inr ()"
    if "GetCapacity v < n" and "can_allocate env n" and "\<forall>x\<in>set (elems v). \<not> copy_throws env x"
    using Reserve_realloc [OF assms _ that(2,3)] that(1) by (simp add: GetCapacity_def)
  have fails: "snd (Reserve env n v) = v" if "fst (Reserve env n v) \<noteq> Inr ()"
  proof (cases "fst (Reserve env n v)")
    case (Inl e)
    then show ?thesis by (rule Reserve_failure)
  next
    case (Inr u)
    with that show ?thesis by simp
  qed
  show ?thesis
    using grow returns fails by (simp add: Reserve_noop GetCapacity_def)
qed

theorem Reserve_frame_witness:
  "invariant vec3
   \<and> 3 \<le> GetCapacity vec3
   \<and> Reserve int_env 3 vec3 = (Inr (), vec3)
   \<and> GetCapacity vec3 < 6 \<and> can_allocate int_env 6
   \<and> fst (Reserve int_env 6 vec3) = Inr ()
   \<and> GetCapacity (snd (Reserve int_env 6 vec3)) = 6
   \<and> GetSize (snd (Reserve int_env 6 vec3)) = 3
   \<and> elems (snd (Reserve int_env 6 vec3)) = [10, 20, 30]
   \<and> fst (Reserve int_env 2000 vec3) = Inl bad_alloc
   \<and> snd (Reserve int_env 2000 vec3) = vec3"
proof -
  have inv: "invariant vec3"
    by (simp add: vec3_def invariant_def PTRDIFF_MAX_def)
  have facts: "GetSize vec3 = 3" "GetCapacity vec3 = 4" "elems vec3 = [10, 20, 30]"
    "can_allocate int_env 6" "\<And>x. \<not> copy_throws int_env x"
    by (simp_all add: vec3_def int_env_def GetSize_def GetCapacity_def elems_def
        can_allocate_def PTRDIFF_MAX_def)
  have failed: "fst (Reserve int_env 2000 vec3) = Inl bad_alloc"
    by (simp add: Reserve_def ArrayPtr_new_def can_allocate_def int_env_def vec3_def)
  show ?thesis
    using Reserve_frame [OF inv, of 3 int_env] Reserve_frame [OF inv, of 6 int_env]
      Reserve_frame [OF inv, of 2000 int_env] inv failed
    by (simp add: facts)
qed

subsection \<open>Claim C9\<close>

text \<open>
  C9: for vectors over a linearly ordered element type, \<open>==\<close> holds exactly when the sizes
  are equal and the elements at every index below the size are equal (the capacity and the
  slots from \<open>end()\<close> on play no part); \<open><\<close> holds exactly when the left sequence is a
  strict prefix of the right one, or the two sequences agree up to an index at which the
  left element is smaller; and the other four operators are derived from these. Vectors
  built from the lists \<open>{1,2,3}\<close>, \<open>{1,2}\<close> and \<open>{1,3}\<close> compare as the spec says.
\<close>

theorem comparison_operators:
  fixes a b :: "('a::linorder) SimpleVector" and env :: "int env"
  assumes "invariant a" and "invariant b"
  shows
    "(op_eq a b \<longleftrightarrow>
        GetSize a = GetSize b \<and> (\<forall>i<GetSize a. items_m a ! i = items_m b ! i))
     \<and> (op_lt a b \<longleftrightarrow>
        (\<exists>x zs. elems b = elems a @ x # zs)
        \<or> (\<exists>us x y vs ws. x < y \<and> elems a = us @ x # vs \<and> elems b = us @ y # ws))
     \<and> (op_ne a b \<longleftrightarrow> \<not> op_eq a b) \<and> (op_gt a b \<longleftrightarrow> op_lt b a)
     \<and> (op_le a b \<longleftrightarrow> \<not> op_lt b a) \<and> (op_ge a b \<longleftrightarrow> \<not> op_lt a b)
     \<and> (\<forall>u v. SimpleVector_init env [1, 2, 3] = Inr u \<and> SimpleVector_init env [1, 2, 3] = Inr v
            \<longrightarrow> op_eq u v)
     \<and> (\<forall>u v. SimpleVector_init env [1, 2] = Inr u \<and> SimpleVector_init env [1, 2, 3] = Inr v
            \<longrightarrow> op_lt u v)
     \<and> (\<forall>u v. SimpleVector_init env [1, 3] = Inr u \<and> SimpleVector_init env [1, 2, 3] = Inr v
            \<longrightarrow> op_gt u v)"
proof -
  have len: "length (elems a) = GetSize a" "length (elems b) = GetSize b"
    using assms by (simp_all add: invariant_def elems_def GetSize_def)
  have "op_eq a b \<longleftrightarrow> elems a = elems b"
    by (simp add: op_eq_def std_equal_iff)
  also have "\<dots> \<longleftrightarrow> GetSize a = GetSize b \<and> (\<forall>i<GetSize a. elems a ! i = elems b ! i)"
    using len by (simp add: list_eq_iff_nth_eq)
  also have "\<dots> \<longleftrightarrow> GetSize a = GetSize b \<and> (\<forall>i<GetSize a. items_m a ! i = items_m b ! i)"
    by (auto simp: elems_def GetSize_def)
  finally have eq: "op_eq a b \<longleftrightarrow>
      GetSize a = GetSize b \<and> (\<forall>i<GetSize a. items_m a ! i = items_m b ! i)" .
  have lt: "op_lt a b \<longleftrightarrow>
      (\<exists>x zs. elems b = elems a @ x # zs)
      \<or> (\<exists>us x y vs ws. x < y \<and> elems a = us @ x # vs \<and> elems b = us @ y # ws)"
    unfolding op_lt_def by (rule lexicographical_compare_iff)
  have derived: "(op_ne a b \<longleftrightarrow> \<not> op_eq a b) \<and> (op_gt a b \<longleftrightarrow> op_lt b a)
      \<and> (op_le a b \<longleftrightarrow> \<not> op_lt b a) \<and> (op_ge a b \<longleftrightarrow> \<not> op_lt a b)"
    by (simp add: op_ne_def op_gt_def op_le_def op_ge_def)
  have ex1: "op_eq u v"
    if "SimpleVector_init env [1, 2, 3] = Inr u \<and> SimpleVector_init env [1, 2, 3] = Inr v"
    for u v
    using that by (auto simp: op_eq_def std_equal_iff)
  have ex2: "op_lt u v"
    if "SimpleVector_init env [1, 2] = Inr u \<and> SimpleVector_init env [1, 2, 3] = Inr v"
    for u v
    using that SimpleVector_init_result(1) [of env "[1, 2]" u]
      SimpleVector_init_result(1) [of env "[1, 2, 3]" v]
    by (simp add: op_lt_def)
  have ex3: "op_gt u v"
    if "SimpleVector_init env [1, 3] = Inr u \<and> SimpleVector_init env [1, 2, 3] = Inr v"
    for u v
    using that SimpleVector_init_result(1) [of env "[1, 3]" u]
      SimpleVector_init_result(1) [of env "[1, 2, 3]" v]
    by (simp add: op_gt_def op_lt_def)
  show ?thesis
    using eq lt derived ex1 ex2 ex3 by blast
qed

theorem comparison_operators_witness:
  "invariant vec3
   \<and> invariant \<lparr>items_m = [10, 20, 30 :: int], size_m = 3, capacity_m = 3\<rparr>
   \<and> op_eq vec3 \<lparr>items_m = [10, 20, 30], size_m = 3, capacity_m = 3\<rparr>
   \<and> \<not> op_lt vec3 \<lparr>items_m = [10, 20, 30], size_m = 3, capacity_m = 3\<rparr>
   \<and> SimpleVector_init int_env [1, 2, 3] = Inr \<lparr>items_m = [1, 2, 3], size_m = 3, capacity_m = 3\<rparr>
   \<and> SimpleVector_init int_env [1, 2] = Inr \<lparr>items_m = [1, 2], size_m = 2, capacity_m = 2\<rparr>
   \<and> SimpleVector_init int_env [1, 3] = Inr \<lparr>items_m = [1, 3], size_m = 2, capacity_m = 2\<rparr>
   \<and> op_eq \<lparr>items_m = [1, 2, 3 :: int], size_m = 3, capacity_m = 3\<rparr>
        \<lparr>items_m = [1, 2, 3], size_m = 3, capacity_m = 3\<rparr>
   \<and> op_lt \<lparr>items_m = [1, 2 :: int], size_m = 2, capacity_m = 2\<rparr>
        \<lparr>items_m = [1, 2, 3], size_m = 3, capacity_m = 3\<rparr>
   \<and> op_gt \<lparr>items_m = [1, 3 :: int], size_m = 2, capacity_m = 2\<rparr>
        \<lparr>items_m = [1, 2, 3], size_m = 3, capacity_m = 3\<rparr>"
proof -
  let ?w = "\<lparr>items_m = [10, 20, 30 :: int], size_m = 3, capacity_m = 3\<rparr>"
  have inv: "invariant vec3" "invariant ?w"
    by (simp_all add: vec3_def invariant_def PTRDIFF_MAX_def)
  have init: "SimpleVector_init int_env [1, 2, 3]
      = Inr \<lparr>items_m = [1, 2, 3], size_m = 3, capacity_m = 3\<rparr>"
    "SimpleVector_init int_env [1, 2] = Inr \<lparr>items_m = [1, 2], size_m = 2, capacity_m = 2\<rparr>"
    "SimpleVector_init int_env [1, 3] = Inr \<lparr>items_m = [1, 3], size_m = 2, capacity_m = 2\<rparr>"
    by (simp_all add: SimpleVector_init_def ArrayPtr_new_def can_allocate_def int_env_def
        PTRDIFF_MAX_def assign_throws_def upt_rec)
  note compare = comparison_operators [OF inv, of int_env]
  have sizes: "GetSize vec3 = 3" "GetSize ?w = 3"
    by (simp_all add: vec3_def GetSize_def)
  have same: "\<forall>i<3. items_m vec3 ! i = items_m ?w ! i"
    by (simp add: vec3_def less_Suc_eq numeral_3_eq_3)
  have "op_eq vec3 ?w"
    using compare sizes same by simp
  moreover have "\<not> op_lt vec3 ?w"
    by (simp add: op_lt_def elems_def vec3_def)
  moreover from compare init
  have "op_eq \<lparr>items_m = [1, 2, 3 :: int], size_m = 3, capacity_m = 3\<rparr>
        \<lparr>items_m = [1, 2, 3], size_m = 3, capacity_m = 3\<rparr>"
    and "op_lt \<lparr>items_m = [1, 2 :: int], size_m = 2, capacity_m = 2\<rparr>
        \<lparr>items_m = [1, 2, 3], size_m = 3, capacity_m = 3\<rparr>"
    and "op_gt \<lparr>items_m = [1, 3 :: int], size_m = 2, capacity_m = 2\<rparr>
        \<lparr>items_m = [1, 2, 3], size_m = 3, capacity_m = 3\<rparr>"
    by blast+
  ultimately show ?thesis
    using inv init by simp
qed

subsection \<open>Claim C10\<close>

text \<open>
  C10: \<open>PopBack\<close> and \<open>Erase\<close> never touch the capacity. \<open>PopBack\<close> changes nothing but the
  size, and nothing at all on an empty vector; \<open>Erase\<close> at a position before \<open>end()\<close> keeps the
  buffer and its length, lowers the size by one, and leaves the slots before the position
  and the slots from the old \<open>end()\<close> on as they were.
\<close>

theorem removal_keeps_capacity:
  "GetCapacity (PopBack v) = GetCapacity v
   \<and> items_m (PopBack v) = items_m v
   \<and> GetSize (PopBack v) = GetSize v - 1
   \<and> (IsEmpty v \<longrightarrow> PopBack v = v)
   \<and> (invariant v \<and> pos < GetSize v \<longrightarrow>
        fst (Erase env pos v) = Inr pos
        \<and> GetCapacity (snd (Erase env pos v)) = GetCapacity v
        \<and> length (items_m (snd (Erase env pos v))) = length (items_m v)
        \<and> GetSize (snd (Erase env pos v)) = GetSize v - 1
        \<and> take pos (items_m (snd (Erase env pos v))) = take pos (items_m v)
        \<and> drop (GetSize v) (items_m (snd (Erase env pos v))) = drop (GetSize v) (items_m v))"
proof -
  have pop: "GetCapacity (PopBack v) = GetCapacity v \<and> items_m (PopBack v) = items_m v
      \<and> GetSize (PopBack v) = GetSize v - 1 \<and> (IsEmpty v \<longrightarrow> PopBack v = v)"
    by (simp add: PopBack_def GetCapacity_def GetSize_def IsEmpty_def)
  have erase: "fst (Erase env pos v) = Inr pos
        \<and> GetCapacity (snd (Erase env pos v)) = GetCapacity v
        \<and> length (items_m (snd (Erase env pos v))) = length (items_m v)
        \<and> GetSize (snd (Erase env pos v)) = GetSize v - 1
        \<and> take pos (items_m (snd (Erase env pos v))) = take pos (items_m v)
        \<and> drop (GetSize v) (items_m (snd (Erase env pos v))) = drop (GetSize v) (items_m v)"
    if "invariant v" and "pos < GetSize v"
    using that
    by (simp add: Erase_ok GetCapacity_def GetSize_def invariant_def move_within_take
        move_within_drop)
  show ?thesis
    using pop erase by blast
qed

theorem removal_keeps_capacity_witness:
  "IsEmpty (SimpleVector_default :: int SimpleVector)
   \<and> PopBack (SimpleVector_default :: int SimpleVector) = SimpleVector_default
   \<and> PopBack vec3 = \<lparr>items_m = [10, 20, 30, - 1], size_m = 2, capacity_m = 4\<rparr>
   \<and> invariant vec3 \<and> 0 < GetSize vec3
   \<and> Erase int_env 0 vec3 = (Inr 0, \<lparr>items_m = [20, 30, 30, - 1], size_m = 2, capacity_m = 4\<rparr>)
   \<and> GetCapacity (snd (Erase int_env 0 vec3)) = GetCapacity vec3"
  using removal_keeps_capacity [of "SimpleVector_default :: int SimpleVector"]
    removal_keeps_capacity [of vec3 0 int_env]
  by (simp add: vec3_def SimpleVector_default_def IsEmpty_def PopBack_def invariant_def
      PTRDIFF_MAX_def GetSize_def GetCapacity_def Erase_def int_env_def move_within.simps)

end
